theory Spec2Isabelle
  imports Main
begin

section \<open>Enumerations of the game\<close>

text \<open>
  Modelled from the spec: the enumeration \<^verbatim>\<open>ElementType\<close> of \<^verbatim>\<open>gisim.classes.enums\<close> is
  imported by \<^verbatim>\<open>agent.py\<close> but its declaration is not among the sources. The tags are
  the ones the agent names (\<^verbatim>\<open>NONE\<close>, \<^verbatim>\<open>CRYO\<close>, \<^verbatim>\<open>OMNI\<close>, \<^verbatim>\<open>POWER\<close>, \<^verbatim>\<open>ANY\<close>, \<^verbatim>\<open>SAME\<close>) and the
  seven major elements of the data model; \<^verbatim>\<open>OMNI\<close> is the Universal token. The only fact
  the agent uses about the numbers is the test \<^verbatim>\<open>1 <= key.value <= 7\<close> (commented
  ``7 majors elements''), so the seven major elements carry 1..7 and every other tag a
  number outside that range.
\<close>

datatype ElementType =
  NONE | CRYO | HYDRO | PYRO | ELECTRO | GEO | DENDRO | ANEMO | POWER | ANY | SAME | OMNI

fun elem_value :: "ElementType \<Rightarrow> int" where
  "elem_value NONE = 0"
| "elem_value CRYO = 1"
| "elem_value HYDRO = 2"
| "elem_value PYRO = 3"
| "elem_value ELECTRO = 4"
| "elem_value GEO = 5"
| "elem_value DENDRO = 6"
| "elem_value ANEMO = 7"
| "elem_value POWER = 8"
| "elem_value ANY = 9"
| "elem_value SAME = 10"
| "elem_value OMNI = 11"

section \<open>The dice matcher: \<^verbatim>\<open>AttackOnlyAgent.get_dice_idx_greedy\<close>\<close>

text \<open>
  A cost specification is a Python \<^verbatim>\<open>dict\<close>, iterated in insertion order by
  \<^verbatim>\<open>cost.items()\<close>: an association list. The counts are Python integers. The matcher's
  local state is the list \<^verbatim>\<open>dice_idx\<close> of the indices chosen so far and the list \<^verbatim>\<open>used\<close>
  of one flag per die.
\<close>

type_synonym cost = "(ElementType \<times> int) list"
type_synonym selection = "nat list \<times> bool list"

text \<open>
  The five scans of the major-element and \<^verbatim>\<open>ANY\<close> branches (lines 219-227, 230-238,
  244-252, 255-263 and 266-274) are the same loop; they differ in the test on \<^verbatim>\<open>die\<close>
  only, which is the parameter \<open>want\<close>. The loop runs over \<^verbatim>\<open>enumerate(dice)\<close> and
  leaves by \<^verbatim>\<open>break\<close> when \<^verbatim>\<open>remaining\<close> reaches exactly zero.
\<close>

fun scan_take ::
  "(ElementType \<Rightarrow> bool) \<Rightarrow> (nat \<times> ElementType) list \<Rightarrow> int \<times> selection \<Rightarrow> int \<times> selection"
where
  "scan_take want [] s = s"
| "scan_take want ((idx, die) # rest) (remaining, dice_idx, used) =
     (if used ! idx then scan_take want rest (remaining, dice_idx, used)
      else if idx \<notin> set dice_idx \<and> want die then
        (if remaining - 1 = 0 then (remaining - 1, dice_idx @ [idx], used[idx := True])
         else scan_take want rest (remaining - 1, dice_idx @ [idx], used[idx := True]))
      else scan_take want rest (remaining, dice_idx, used))"

text \<open>The \<^verbatim>\<open>if remaining > 0:\<close> guard in front of a fallback scan.\<close>

definition scan_more ::
  "(ElementType \<Rightarrow> bool) \<Rightarrow> (nat \<times> ElementType) list \<Rightarrow> int \<times> selection \<Rightarrow> int \<times> selection"
where
  "scan_more want ps s = (if fst s > 0 then scan_take want ps s else s)"

text \<open>
  \<^verbatim>\<open>collections.Counter\<close> over a list: a dictionary from each element to its number of
  occurrences, the keys in the order of their first occurrence. Reading a missing key of
  a \<^verbatim>\<open>Counter\<close> gives 0.
\<close>

fun counter_incr :: "'a \<Rightarrow> ('a \<times> int) list \<Rightarrow> ('a \<times> int) list" where
  "counter_incr x [] = [(x, 1)]"
| "counter_incr x ((k, c) # m) =
     (if k = x then (k, c + 1) # m else (k, c) # counter_incr x m)"

definition Counter :: "'a list \<Rightarrow> ('a \<times> int) list" where
  "Counter xs = foldl (\<lambda>m x. counter_incr x m) [] xs"

definition counter_get :: "('a \<times> int) list \<Rightarrow> 'a \<Rightarrow> int" where
  "counter_get m k = (case map_of m k of Some c \<Rightarrow> c | None \<Rightarrow> 0)"

text \<open>\<^verbatim>\<open>if k not in dice_counter.keys(): dice_counter[k] = 0\<close>: a new key goes last.\<close>

definition counter_ensure :: "'a \<Rightarrow> ('a \<times> int) list \<Rightarrow> ('a \<times> int) list" where
  "counter_ensure k m = (if k \<in> fst ` set m then m else m @ [(k, 0)])"

text \<open>
  \<^verbatim>\<open>sorted(items, key=lambda item: item[1])\<close> is a stable ascending sort by count, and
  with \<^verbatim>\<open>reverse=True\<close> a stable descending one (equal counts keep their order).
\<close>

definition sorted_asc :: "('a \<times> int) list \<Rightarrow> ('a \<times> int) list" where
  "sorted_asc m = sort_key snd m"

definition sorted_desc :: "('a \<times> int) list \<Rightarrow> ('a \<times> int) list" where
  "sorted_desc m = sort_key (\<lambda>item. - snd item) m"

text \<open>Lines 293-301: take unused dice of one element until \<^verbatim>\<open>remaining\<close> is zero.\<close>

fun same_take ::
  "ElementType \<Rightarrow> (nat \<times> ElementType) list \<Rightarrow> int \<times> selection \<Rightarrow> int \<times> selection"
where
  "same_take element [] s = s"
| "same_take element ((idx, die) # rest) (remaining, dice_idx, used) =
     (if used ! idx then same_take element rest (remaining, dice_idx, used)
      else if element = die then
        (if remaining - 1 = 0 then (remaining - 1, dice_idx @ [idx], used[idx := True])
         else same_take element rest (remaining - 1, dice_idx @ [idx], used[idx := True]))
      else same_take element rest (remaining, dice_idx, used))"

text \<open>
  Lines 289-303, the first strategy of the \<^verbatim>\<open>SAME\<close> key: the first entry of the
  ascending counter that is neither \<^verbatim>\<open>OMNI\<close> nor the character's element and whose count
  reaches \<^verbatim>\<open>val\<close>. \<open>None\<close> stands for \<^verbatim>\<open>satisfied\<close> still being false after the loop.
\<close>

fun same_exact ::
  "ElementType list \<Rightarrow> ElementType \<Rightarrow> int \<Rightarrow> (ElementType \<times> int) list \<Rightarrow> int \<times> selection
    \<Rightarrow> (int \<times> selection) option"
where
  "same_exact dice char_element val [] s = None"
| "same_exact dice char_element val ((element, cnt) # rest) s =
     (if element \<in> set [OMNI, char_element] then same_exact dice char_element val rest s
      else if cnt \<ge> val then Some (same_take element (enumerate 0 dice) s)
      else same_exact dice char_element val rest s)"

text \<open>Lines 316-326: all unused dice of one element, and \<^verbatim>\<open>OMNI\<close> dice while some are owed.\<close>

fun omni_fill ::
  "ElementType \<Rightarrow> (nat \<times> ElementType) list \<Rightarrow> int \<times> int \<times> selection \<Rightarrow> int \<times> int \<times> selection"
where
  "omni_fill element [] s = s"
| "omni_fill element ((idx, die) # rest) (other_remaining, omni_remaining, dice_idx, used) =
     (if used ! idx then
        omni_fill element rest (other_remaining, omni_remaining, dice_idx, used)
      else if element = die then
        omni_fill element rest
          (other_remaining - 1, omni_remaining, dice_idx @ [idx], used[idx := True])
      else if omni_remaining > 0 \<and> die = OMNI then
        omni_fill element rest
          (other_remaining, omni_remaining - 1, dice_idx @ [idx], used[idx := True])
      else omni_fill element rest (other_remaining, omni_remaining, dice_idx, used))"

text \<open>
  Lines 310-330, the second strategy: the loop over the descending counter skips \<^verbatim>\<open>OMNI\<close>
  and the character's element and leaves at the first other entry, whatever became of
  it (the bare \<^verbatim>\<open>break\<close> of line 330). The result is \<^verbatim>\<open>satisfied\<close> and the state.
\<close>

fun same_with_omni ::
  "ElementType list \<Rightarrow> ElementType \<Rightarrow> int \<Rightarrow> int \<Rightarrow> (ElementType \<times> int) list \<Rightarrow> selection
    \<Rightarrow> bool \<times> selection"
where
  "same_with_omni dice char_element val omni_count [] s = (False, s)"
| "same_with_omni dice char_element val omni_count ((element, cnt) # rest) s =
     (if element \<in> set [OMNI, char_element] then
        same_with_omni dice char_element val omni_count rest s
      else if omni_count + cnt \<ge> val then
        (case omni_fill element (enumerate 0 dice) (cnt, val - cnt, s) of
           (other_remaining, omni_remaining, s') \<Rightarrow>
             (other_remaining = 0 \<and> omni_remaining = 0, s'))
      else (False, s))"

text \<open>
  Lines 337-350, the third strategy: dice of the character's element and \<^verbatim>\<open>OMNI\<close> dice;
  the test that both counters are zero follows every unused die. The result is
  \<^verbatim>\<open>satisfied\<close> and the state.
\<close>

fun char_fill ::
  "ElementType \<Rightarrow> (nat \<times> ElementType) list \<Rightarrow> int \<times> int \<times> selection \<Rightarrow> bool \<times> selection"
where
  "char_fill char_element [] (char_elem_remaining, omni_remaining, s) = (False, s)"
| "char_fill char_element ((idx, die) # rest) (char_elem_remaining, omni_remaining, dice_idx, used) =
     (if used ! idx then
        char_fill char_element rest (char_elem_remaining, omni_remaining, dice_idx, used)
      else
        (case (if char_element = die then
                 (char_elem_remaining - 1, omni_remaining, dice_idx @ [idx], used[idx := True])
               else if omni_remaining > 0 \<and> die = OMNI then
                 (char_elem_remaining, omni_remaining - 1, dice_idx @ [idx], used[idx := True])
               else (char_elem_remaining, omni_remaining, dice_idx, used)) of
           (c, omn, s') \<Rightarrow>
             (if c = 0 \<and> omn = 0 then (True, s') else char_fill char_element rest (c, omn, s'))))"

text \<open>
  Lines 277-352, the \<^verbatim>\<open>SAME\<close> key. \<open>None\<close> is the \<^verbatim>\<open>return []\<close> of line 352.
\<close>

definition unused_dice :: "ElementType list \<Rightarrow> bool list \<Rightarrow> ElementType list" where
  "unused_dice dice used =
     map (\<lambda>(idx, die_used). dice ! idx) (filter (\<lambda>(idx, die_used). \<not> die_used) (enumerate 0 used))"

definition same_key ::
  "ElementType list \<Rightarrow> ElementType \<Rightarrow> int \<Rightarrow> selection \<Rightarrow> selection option"
where
  "same_key dice char_element val s =
     (let dice_counter = counter_ensure char_element (counter_ensure OMNI (Counter (unused_dice dice (snd s))))
      in case same_exact dice char_element val (sorted_asc dice_counter) (val, s) of
           Some (remaining, s') \<Rightarrow> Some s'
         | None \<Rightarrow>
             (let omni_count = counter_get (sorted_asc dice_counter) OMNI
              in case same_with_omni dice char_element val omni_count (sorted_desc dice_counter) s of
                   (True, s') \<Rightarrow> Some s'
                 | (False, s') \<Rightarrow>
                     (let char_elem_count = counter_get dice_counter char_element
                      in if char_elem_count + omni_count \<ge> val then
                           (case char_fill char_element (enumerate 0 dice)
                                   (min char_elem_count val, val - min char_elem_count val, s') of
                              (True, s'') \<Rightarrow> Some s''
                            | (False, s'') \<Rightarrow> None)
                         else None)))"

text \<open>
  Lines 214-354, the loop over \<^verbatim>\<open>cost.items()\<close>. A key that is neither a major element,
  nor \<^verbatim>\<open>ANY\<close>, nor \<^verbatim>\<open>SAME\<close> matches no branch of the \<^verbatim>\<open>if\<close>/\<^verbatim>\<open>elif\<close> chain and is passed
  over. \<open>None\<close> is a \<^verbatim>\<open>return []\<close> from inside the loop (lines 241, 276, 352).
\<close>

fun greedy_keys ::
  "ElementType list \<Rightarrow> ElementType \<Rightarrow> cost \<Rightarrow> selection \<Rightarrow> selection option"
where
  "greedy_keys dice char_element [] s = Some s"
| "greedy_keys dice char_element ((key, val) # rest) s =
     (if 1 \<le> elem_value key \<and> elem_value key \<le> 7 then
        (case scan_more (\<lambda>die. die = OMNI) (enumerate 0 dice)
                (scan_take (\<lambda>die. die = key) (enumerate 0 dice) (val, s)) of
           (remaining, s') \<Rightarrow>
             if remaining > 0 then None else greedy_keys dice char_element rest s')
      else if key = ANY then
        (case scan_more (\<lambda>die. die = OMNI) (enumerate 0 dice)
                (scan_more (\<lambda>die. die = char_element) (enumerate 0 dice)
                   (scan_take (\<lambda>die. die \<noteq> char_element) (enumerate 0 dice) (val, s))) of
           (remaining, s') \<Rightarrow>
             if remaining > 0 then None else greedy_keys dice char_element rest s')
      else if key = SAME then
        (case same_key dice char_element val s of
           None \<Rightarrow> None
         | Some s' \<Rightarrow> greedy_keys dice char_element rest s')
      else greedy_keys dice char_element rest s)"

text \<open>
  \<open>greedy_select\<close> is the run of the loop from the initial state (no index chosen, no die
  used): \<open>Some\<close> of the chosen indices when the loop completes (line 354), \<open>None\<close> when
  it is left by \<^verbatim>\<open>return []\<close>. \<open>get_dice_idx_greedy\<close> is what the caller sees.
\<close>

definition greedy_select :: "ElementType list \<Rightarrow> cost \<Rightarrow> ElementType \<Rightarrow> nat list option" where
  "greedy_select dice cost char_element =
     map_option fst (greedy_keys dice char_element cost ([], replicate (length dice) False))"

definition get_dice_idx_greedy :: "ElementType list \<Rightarrow> cost \<Rightarrow> ElementType \<Rightarrow> nat list" where
  "get_dice_idx_greedy dice cost char_element =
     (case greedy_select dice cost char_element of None \<Rightarrow> [] | Some dice_idx \<Rightarrow> dice_idx)"

section \<open>Snapshots, cards and actions\<close>

text \<open>
  Modelled from the spec: the enumerations and classes of \<^verbatim>\<open>gisim.classes\<close>, \<^verbatim>\<open>gisim.game\<close>
  and \<^verbatim>\<open>gisim.cards\<close> that \<^verbatim>\<open>agent.py\<close> imports are not among the sources. They are
  declared here with the fields and constructor arguments the agent reads and writes.
  A character position \<^verbatim>\<open>CharPos(k)\<close> is identified with its slot index \<open>k\<close> (its
  \<^verbatim>\<open>.value\<close>); \<^verbatim>\<open>game_info.get_player_info()\<close> and \<^verbatim>\<open>game_info.get_opponent_info()\<close> are
  fields of the snapshot; \<^verbatim>\<open>~player_id\<close> is the other player. The field \<^verbatim>\<open>power\<close> of a
  character is \<open>stored_power\<close> here, and the fields \<^verbatim>\<open>name\<close> and \<^verbatim>\<open>type\<close> of a skill are
  \<open>skill_name\<close> and \<open>skill_type\<close>.
\<close>

datatype GameStatus = INITIALIZING | RUNNING | ENDED

datatype GamePhase = CHANGE_CARD | SELECT_ACTIVE_CHARACTER | ROLL_DICE | PLAY_CARDS | ROUND_END

datatype CharPos = CharPos nat

fun pos_value :: "CharPos \<Rightarrow> nat" where
  "pos_value (CharPos k) = k"

datatype PlayerID = PLAYER1 | PLAYER2

fun invert_player :: "PlayerID \<Rightarrow> PlayerID" where
  "invert_player PLAYER1 = PLAYER2"
| "invert_player PLAYER2 = PLAYER1"

datatype EntityType = CHARACTER | WEAPON

datatype SkillType = NORMAL_ATTACK | ELEMENTAL_SKILL | ELEMENTAL_BURST

record Skill =
  skill_name :: string
  skill_type :: SkillType
  costs :: cost

record CharacterCard =
  element_type :: ElementType
  skills :: "Skill list"

record CharacterEntity =
  name :: string
  health_point :: int
  alive :: bool
  stored_power :: int

record CharacterInfo =
  character :: CharacterEntity

record PlayerInfo =
  characters :: "CharacterInfo list"
  active_character_position :: CharPos
  dice_zone :: "ElementType list"
  hand_cards :: "string list"

record GameInfo =
  status :: GameStatus
  phase :: GamePhase
  get_player_info :: PlayerInfo
  get_opponent_info :: PlayerInfo

datatype Action =
    ChangeCardsAction "nat list"
  | ChangeCharacterAction CharPos "nat list"
  | DeclareEndAction
  | RollDiceAction "nat list"
  | UseCardAction nat "(PlayerID \<times> EntityType \<times> nat) list" "nat list" CharPos
  | UseSkillAction CharPos string "nat list" "(PlayerID \<times> CharPos) list"

text \<open>The exceptions a call of the agent can end with.\<close>

datatype error =
    IndexError
  | KeyError
  | AttributeError
  | NotImplementedError
  | NoActionAssigned GameInfo

text \<open>\<^verbatim>\<open>xs[k]\<close> for a non-negative \<open>k\<close>: out of range raises \<^verbatim>\<open>IndexError\<close>.\<close>

definition py_index :: "'a list \<Rightarrow> nat \<Rightarrow> error + 'a" where
  "py_index xs k = (if k < length xs then Inr (xs ! k) else Inl IndexError)"

text \<open>
  Modelled from the spec: \<^verbatim>\<open>character_card.get_skill(skill_type=...)\<close> is not among the
  sources; card metadata is a sequence of skills with a name, a skill type and a cost
  specification, and the lookup gives the first skill of the type, or \<^verbatim>\<open>None\<close>.
\<close>

definition get_skill :: "CharacterCard \<Rightarrow> SkillType \<Rightarrow> Skill option" where
  "get_skill character_card ty = find (\<lambda>skill. skill_type skill = ty) (skills character_card)"

section \<open>The round-end defaults\<close>

text \<open>
  The list comprehension of lines 90-94 (and 164-168, 362-366): the positions of the
  slots whose \<^verbatim>\<open>alive\<close> flag is set, in slot order.
\<close>

definition alive_positions :: "PlayerInfo \<Rightarrow> CharPos list" where
  "alive_positions player_info =
     map (\<lambda>(k, character_info). CharPos k)
       (filter (\<lambda>(k, character_info). alive (character character_info))
          (enumerate 0 (characters player_info)))"

text \<open>\<^verbatim>\<open>SimpleAgent.take_action_on_round_end\<close>, lines 84-99.\<close>

definition take_action_on_round_end :: "GameInfo \<Rightarrow> error + Action" where
  "take_action_on_round_end game_info =
     (let player_info = get_player_info game_info;
          active_pos = active_character_position player_info
      in case py_index (characters player_info) (pos_value active_pos) of
           Inl e \<Rightarrow> Inl e
         | Inr character_info \<Rightarrow>
             if health_point (character character_info) \<le> 0 then
               (case alive_positions player_info of
                  [] \<Rightarrow> Inl IndexError
                | position # _ \<Rightarrow> Inr (ChangeCharacterAction position []))
             else Inr DeclareEndAction)"

section \<open>The multi-action agent\<close>

text \<open>
  A Python generator, as far as its consumer can tell: it is exhausted (\<open>Done\<close>: the
  next \<^verbatim>\<open>next()\<close> raises \<^verbatim>\<open>StopIteration\<close>), or it yields an item and goes on, or its body
  raises an exception, after which it is exhausted.
\<close>

datatype 'a gen = Done | Yield 'a "'a gen" | Raise error

fun next_gen :: "'a gen \<Rightarrow> (error + 'a) option \<times> 'a gen" where
  "next_gen Done = (None, Done)"
| "next_gen (Yield a g) = (Some (Inr a), g)"
| "next_gen (Raise e) = (Some (Inl e), Done)"

text \<open>\<^verbatim>\<open>GenericMultipleAction.yield_actions_on_round_end\<close>, lines 158-173.\<close>

definition yield_actions_on_round_end :: "GameInfo \<Rightarrow> Action gen" where
  "yield_actions_on_round_end game_info =
     (let player_info = get_player_info game_info;
          active_pos = active_character_position player_info
      in case py_index (characters player_info) (pos_value active_pos) of
           Inl e \<Rightarrow> Raise e
         | Inr character_info \<Rightarrow>
             if health_point (character character_info) \<le> 0 then
               (case alive_positions player_info of
                  [] \<Rightarrow> Raise IndexError
                | position # _ \<Rightarrow> Yield (ChangeCharacterAction position []) Done)
             else Yield DeclareEndAction Done)"

text \<open>
  \<^verbatim>\<open>MultipleActionAgent.take_action\<close>, lines 114-128. The agent's state is the field
  \<^verbatim>\<open>_current_iter\<close>: \<open>None\<close> or a generator. The policy \<^verbatim>\<open>take_multiple_actions\<close> is
  abstract in this class (it raises \<^verbatim>\<open>NotImplementedError\<close>), so it is a parameter: it
  raises, or it gives a generator for the snapshot. The result is what the call returns
  or raises, and the new state.
\<close>

definition take_action ::
  "(GameInfo \<Rightarrow> error + Action gen) \<Rightarrow> Action gen option \<Rightarrow> GameInfo
    \<Rightarrow> (error + Action) \<times> Action gen option"
where
  "take_action take_multiple_actions current_iter game_info =
     (case (case current_iter of
              None \<Rightarrow> (None, None)
            | Some it \<Rightarrow> (case next_gen it of (r, it') \<Rightarrow> (r, Some it'))) of
        (Some r, current_iter') \<Rightarrow> (r, current_iter')
      | (None, current_iter') \<Rightarrow>
          (case take_multiple_actions game_info of
             Inl e \<Rightarrow> (Inl e, current_iter')
           | Inr fresh \<Rightarrow>
               (case next_gen fresh of
                  (Some r, it') \<Rightarrow> (r, Some it')
                | (None, it') \<Rightarrow> (Inl (NoActionAssigned game_info), Some it'))))"

text \<open>The abstract policy of \<^verbatim>\<open>MultipleActionAgent\<close> itself, line 112.\<close>

definition take_multiple_actions_abstract :: "GameInfo \<Rightarrow> error + Action gen" where
  "take_multiple_actions_abstract game_info = Inl NotImplementedError"

text \<open>A generator that yields the items of a list and ends.\<close>

fun yields :: "'a list \<Rightarrow> 'a gen" where
  "yields [] = Done"
| "yields (a # as) = Yield a (yields as)"

section \<open>The attack policy: \<^verbatim>\<open>AttackOnlyAgent.take_action_on_play_cards\<close>\<close>

text \<open>
  The policy calls the matcher at six places. Next to its result the model returns the
  trace of these calls: the call site and the cost mapping passed, in the order of the
  calls.
\<close>

datatype call_site =
    KantenSenmyouBlessing
  | TravelersHandySword
  | SacrificialSword
  | ElementalBurst
  | ElementalSkill
  | NormalAttack

type_synonym matcher_calls = "(call_site \<times> cost) list"

text \<open>\<^verbatim>\<open>xs.index(x)\<close> for an \<open>x\<close> that is in \<open>xs\<close>: the first position of \<open>x\<close>.\<close>

definition list_index :: "'a list \<Rightarrow> 'a \<Rightarrow> nat" where
  "list_index xs x = length (takeWhile (\<lambda>y. y \<noteq> x) xs)"

text \<open>
  Lines 380-395, 396-411 and 412-425 are one block three times, for three cards: if the
  card is in the hand, ask the matcher, and play the card when the result is not empty.
  \<open>None\<close> is falling through to the next block.
\<close>

definition card_attempt ::
  "call_site \<Rightarrow> string \<Rightarrow> cost \<Rightarrow> EntityType \<Rightarrow> PlayerID \<Rightarrow> PlayerInfo \<Rightarrow> ElementType
    \<Rightarrow> matcher_calls \<Rightarrow> Action option \<times> matcher_calls"
where
  "card_attempt site card_name card_cost entity player_id player_info char_element calls =
     (if card_name \<in> set (hand_cards player_info) then
        (let dice_idx = get_dice_idx_greedy (dice_zone player_info) card_cost char_element
         in (if length dice_idx > 0 then
               Some (UseCardAction (list_index (hand_cards player_info) card_name)
                       [(player_id, entity, pos_value (active_character_position player_info))]
                       dice_idx (active_character_position player_info))
             else None,
             calls @ [(site, card_cost)]))
      else (None, calls))"

text \<open>
  Lines 435-444 and 445-454: \<^verbatim>\<open>if not dice_idx:\<close> look the next skill up and ask the
  matcher for its costs. The state is \<^verbatim>\<open>dice_idx\<close> and \<^verbatim>\<open>skill_name\<close>. A skill that the
  card does not have is \<^verbatim>\<open>None\<close>, and reading \<^verbatim>\<open>.costs\<close> of it raises.
\<close>

definition skill_attempt ::
  "call_site \<Rightarrow> Skill option \<Rightarrow> PlayerInfo \<Rightarrow> ElementType \<Rightarrow> (nat list \<times> string) \<times> matcher_calls
    \<Rightarrow> (error + nat list \<times> string) \<times> matcher_calls"
where
  "skill_attempt site skill player_info char_element st =
     (case st of
        ((dice_idx, chosen), calls) \<Rightarrow>
          if dice_idx = [] then
            (case skill of
               None \<Rightarrow> (Inl AttributeError, calls)
             | Some sk \<Rightarrow>
                 (let dice_idx' = get_dice_idx_greedy (dice_zone player_info) (costs sk) char_element
                  in (Inr (dice_idx', if length dice_idx' > 0 then skill_name sk else chosen),
                      calls @ [(site, costs sk)])))
          else (Inr (dice_idx, chosen), calls))"

text \<open>
  Lines 426-434: the elemental burst is tried when the character's power equals the
  burst's \<^verbatim>\<open>POWER\<close> cost; the burst's whole cost mapping goes to the matcher.
\<close>

definition burst_attempt ::
  "Skill option \<Rightarrow> CharacterInfo \<Rightarrow> PlayerInfo \<Rightarrow> ElementType \<Rightarrow> matcher_calls
    \<Rightarrow> (error + nat list \<times> string) \<times> matcher_calls"
where
  "burst_attempt elemental_burst character_info player_info char_element calls =
     (case elemental_burst of
        None \<Rightarrow> (Inl AttributeError, calls)
      | Some burst \<Rightarrow>
          (case map_of (costs burst) POWER of
             None \<Rightarrow> (Inl KeyError, calls)
           | Some power_cost \<Rightarrow>
               if stored_power (character character_info) = power_cost then
                 (let dice_idx = get_dice_idx_greedy (dice_zone player_info) (costs burst) char_element
                  in (Inr (dice_idx, if length dice_idx > 0 then skill_name burst else []),
                      calls @ [(ElementalBurst, costs burst)]))
               else (Inr ([], []), calls)))"

text \<open>Lines 426-469: burst, elemental skill, normal attack, and the action.\<close>

definition use_skills ::
  "CharacterCard \<Rightarrow> PlayerID \<Rightarrow> GameInfo \<Rightarrow> CharacterInfo \<Rightarrow> matcher_calls
    \<Rightarrow> (error + Action) \<times> matcher_calls"
where
  "use_skills character_card player_id game_info character_info calls =
     (let player_info = get_player_info game_info;
          char_element = element_type character_card
      in case burst_attempt (get_skill character_card ELEMENTAL_BURST) character_info player_info
                char_element calls of
           (Inl e, calls1) \<Rightarrow> (Inl e, calls1)
         | (Inr choice1, calls1) \<Rightarrow>
             (case skill_attempt ElementalSkill (get_skill character_card ELEMENTAL_SKILL)
                     player_info char_element (choice1, calls1) of
                (Inl e, calls2) \<Rightarrow> (Inl e, calls2)
              | (Inr choice2, calls2) \<Rightarrow>
                  (case skill_attempt NormalAttack (get_skill character_card NORMAL_ATTACK)
                          player_info char_element (choice2, calls2) of
                     (Inl e, calls3) \<Rightarrow> (Inl e, calls3)
                   | (Inr (dice_idx, chosen), calls3) \<Rightarrow>
                       (if dice_idx = [] then Inr DeclareEndAction
                        else Inr (UseSkillAction (active_character_position player_info) chosen
                                    dice_idx
                                    [(invert_player player_id,
                                      active_character_position (get_opponent_info game_info))]),
                        calls3))))"

text \<open>
  Lines 356-469. The lookup \<^verbatim>\<open>get_character_card\<close> of \<^verbatim>\<open>gisim.cards.characters\<close> is not
  among the sources and is a parameter, as is the agent's \<^verbatim>\<open>player_id\<close>.
\<close>

definition take_action_on_play_cards ::
  "(string \<Rightarrow> CharacterCard) \<Rightarrow> PlayerID \<Rightarrow> GameInfo \<Rightarrow> (error + Action) \<times> matcher_calls"
where
  "take_action_on_play_cards get_character_card player_id game_info =
     (let player_info = get_player_info game_info;
          active_pos = active_character_position player_info
      in case py_index (characters player_info) (pos_value active_pos) of
           Inl e \<Rightarrow> (Inl e, [])
         | Inr character_info \<Rightarrow>
             (let character_card = get_character_card (name (character character_info));
                  char_element = element_type character_card
              in if health_point (character character_info) \<le> 0 then
                   (case alive_positions player_info of
                      [] \<Rightarrow> (Inl IndexError, [])
                    | position # _ \<Rightarrow> (Inr (ChangeCharacterAction position []), []))
                 else
                   (case card_attempt KantenSenmyouBlessing ''Kanten Senmyou Blessing''
                           [(CRYO, 2)] CHARACTER player_id player_info char_element [] of
                      (Some action, calls1) \<Rightarrow> (Inr action, calls1)
                    | (None, calls1) \<Rightarrow>
                   (case card_attempt TravelersHandySword (''Traveler'' @ [CHR 0x27] @ ''s Handy Sword'')
                           [(SAME, 2)] WEAPON player_id player_info char_element calls1 of
                      (Some action, calls2) \<Rightarrow> (Inr action, calls2)
                    | (None, calls2) \<Rightarrow>
                   (case card_attempt SacrificialSword ''Sacrificial Sword''
                           [(SAME, 3)] WEAPON player_id player_info char_element calls2 of
                      (Some action, calls3) \<Rightarrow> (Inr action, calls3)
                    | (None, calls3) \<Rightarrow>
                        use_skills character_card player_id game_info character_info calls3)))))"

section \<open>Example snapshots\<close>

text \<open>Concrete cards, characters and snapshots, on which the properties below are instantiated.\<close>

definition example_card :: CharacterCard where
  "example_card =
     \<lparr>element_type = CRYO,
      skills =
        [\<lparr>skill_name = ''Normal'', skill_type = NORMAL_ATTACK, costs = [(CRYO, 1), (ANY, 2)]\<rparr>,
         \<lparr>skill_name = ''Skill'', skill_type = ELEMENTAL_SKILL, costs = [(CRYO, 3)]\<rparr>,
         \<lparr>skill_name = ''Burst'', skill_type = ELEMENTAL_BURST, costs = [(CRYO, 3), (POWER, 3)]\<rparr>]\<rparr>"

definition example_character :: "int \<Rightarrow> bool \<Rightarrow> int \<Rightarrow> CharacterInfo" where
  "example_character hp al pw =
     \<lparr>character = \<lparr>name = ''Ayaka'', health_point = hp, alive = al, stored_power = pw\<rparr>\<rparr>"

definition example_player ::
  "CharacterInfo list \<Rightarrow> nat \<Rightarrow> ElementType list \<Rightarrow> string list \<Rightarrow> PlayerInfo" where
  "example_player cs k dz hc =
     \<lparr>characters = cs, active_character_position = CharPos k, dice_zone = dz, hand_cards = hc\<rparr>"

definition example_game :: "GamePhase \<Rightarrow> PlayerInfo \<Rightarrow> GameInfo" where
  "example_game ph p =
     \<lparr>status = RUNNING, phase = ph, get_player_info = p, get_opponent_info = p\<rparr>"

definition one_survivor :: GameInfo where
  "one_survivor = example_game ROUND_END
     (example_player [example_character 0 False 0, example_character 0 False 1,
                      example_character 7 True 0] 0 [] [])"

definition no_survivor :: GameInfo where
  "no_survivor = example_game ROUND_END
     (example_player [example_character 0 False 0, example_character 0 False 1,
                      example_character 0 False 0] 0 [] [])"

definition two_step_policy :: "GameInfo \<Rightarrow> error + Action gen" where
  "two_step_policy game_info =
     (if phase game_info = ROLL_DICE then Inr (yields [RollDiceAction [0], DeclareEndAction])
      else if phase game_info = PLAY_CARDS then Inr (yields [])
      else Inr (yields [ChangeCardsAction []]))"

definition flagged_defeated :: GameInfo where
  "flagged_defeated = example_game ROUND_END
     (example_player [example_character (- 3) True 0, example_character 5 True 0] 0 [] [])"

definition power_skill_card :: CharacterCard where
  "power_skill_card =
     \<lparr>element_type = CRYO,
      skills =
        [\<lparr>skill_name = ''Normal'', skill_type = NORMAL_ATTACK, costs = [(CRYO, 1), (ANY, 2)]\<rparr>,
         \<lparr>skill_name = ''Skill'', skill_type = ELEMENTAL_SKILL, costs = [(CRYO, 1), (POWER, 2)]\<rparr>,
         \<lparr>skill_name = ''Burst'', skill_type = ELEMENTAL_BURST, costs = [(CRYO, 3), (POWER, 3)]\<rparr>]\<rparr>"

definition no_power_stored :: GameInfo where
  "no_power_stored = example_game PLAY_CARDS
     (example_player [example_character 10 True 0, example_character 10 True 0] 0 [CRYO] [])"

definition burst_ready :: GameInfo where
  "burst_ready = example_game PLAY_CARDS
     (example_player [example_character 10 True 3, example_character 10 True 0] 0
        [CRYO, PYRO, CRYO, CRYO] [])"

section \<open>Vocabulary of the properties\<close>

text \<open>
  The cost keys of the data model: a major element, \<^verbatim>\<open>POWER\<close>, \<^verbatim>\<open>ANY\<close> or \<^verbatim>\<open>SAME\<close>.
\<close>

definition cost_key :: "ElementType \<Rightarrow> bool" where
  "cost_key key \<longleftrightarrow> (1 \<le> elem_value key \<and> elem_value key \<le> 7) \<or> key = POWER \<or> key = ANY \<or> key = SAME"

text \<open>The sum of the required counts of all keys of a cost specification but \<^verbatim>\<open>POWER\<close>.\<close>

definition required_dice :: "cost \<Rightarrow> int" where
  "required_dice cost = sum_list (map snd (filter (\<lambda>(key, val). key \<noteq> POWER) cost))"

text \<open>
  One scan over the dice list \<open>ps\<close> takes the state \<open>s\<close> to \<open>s'\<close> by appending the
  indices \<open>new\<close>: they are distinct, each was unused and is the index of a wanted die,
  and the flags of exactly these indices are set.
\<close>

definition takes ::
  "(nat \<times> ElementType) list \<Rightarrow> (ElementType \<Rightarrow> bool) \<Rightarrow> selection \<Rightarrow> selection \<Rightarrow> nat list \<Rightarrow> bool"
where
  "takes ps want s s' new \<longleftrightarrow>
     fst s' = fst s @ new \<and> distinct new
     \<and> (\<forall>i \<in> set new. \<not> snd s ! i \<and> (\<exists>d. (i, d) \<in> set ps \<and> want d))
     \<and> length (snd s') = length (snd s)
     \<and> (\<forall>i < length (snd s). snd s' ! i = (snd s ! i \<or> i \<in> set new))"

text \<open>
  The invariant of the matcher's state for \<open>n\<close> dice: one flag per die, no index chosen
  twice, and the chosen indices are the flagged ones.
\<close>

definition sel_ok :: "nat \<Rightarrow> selection \<Rightarrow> bool" where
  "sel_ok n s \<longleftrightarrow>
     length (snd s) = n \<and> distinct (fst s) \<and> (\<forall>i. i \<in> set (fst s) \<longleftrightarrow> i < n \<and> snd s ! i)"

text \<open>The number of unused dice of an element among the enumerated dice \<open>ps\<close>.\<close>

definition avail :: "ElementType \<Rightarrow> (nat \<times> ElementType) list \<Rightarrow> bool list \<Rightarrow> nat" where
  "avail el ps used = length (filter (\<lambda>(i, d). \<not> used ! i \<and> d = el) ps)"

text \<open>The counter of lines 278-284, with the two keys that are always present.\<close>

definition dice_counter_of :: "ElementType list \<Rightarrow> ElementType \<Rightarrow> bool list \<Rightarrow> (ElementType \<times> int) list" where
  "dice_counter_of dice char_element used =
     counter_ensure char_element (counter_ensure OMNI (Counter (unused_dice dice used)))"

text \<open>
  What holds of every call of the matcher in the trace of the attack policy, for the
  card of the active character: the cost passed for a hand card is the fixed cost of
  that card; the cost passed at a skill call site is the whole cost mapping of the
  card's skill of that type; and the cost passed for the burst has a \<^verbatim>\<open>POWER\<close> entry equal
  to the character's power.
\<close>

definition call_checked :: "CharacterCard \<Rightarrow> CharacterInfo \<Rightarrow> call_site \<times> cost \<Rightarrow> bool" where
  "call_checked character_card character_info call \<longleftrightarrow>
     (case fst call of
        KantenSenmyouBlessing \<Rightarrow> snd call = [(CRYO, 2)]
      | TravelersHandySword \<Rightarrow> snd call = [(SAME, 2)]
      | SacrificialSword \<Rightarrow> snd call = [(SAME, 3)]
      | ElementalBurst \<Rightarrow>
          map_option costs (get_skill character_card ELEMENTAL_BURST) = Some (snd call)
          \<and> map_of (snd call) POWER = Some (stored_power (character character_info))
      | ElementalSkill \<Rightarrow>
          map_option costs (get_skill character_card ELEMENTAL_SKILL) = Some (snd call)
      | NormalAttack \<Rightarrow>
          map_option costs (get_skill character_card NORMAL_ATTACK) = Some (snd call))"

lemmas example_defs = example_card_def example_character_def example_player_def example_game_def
  one_survivor_def no_survivor_def burst_ready_def flagged_defeated_def
  power_skill_card_def no_power_stored_def

section \<open>The first alive slot\<close>

lemma filter_enumerate_first:
  "j < length xs \<Longrightarrow> P (xs ! j) \<Longrightarrow> \<forall>i<j. \<not> P (xs ! i)
    \<Longrightarrow> \<exists>rest. filter (\<lambda>(k, x). P x) (enumerate n xs) = (n + j, xs ! j) # rest"
proof (induction xs arbitrary: n j)
  case Nil
  then show ?case by simp
next
  case (Cons x xs)
  show ?case
  proof (cases j)
    case 0
    with Cons.prems show ?thesis by simp
  next
    case (Suc j')
    from Cons.prems Suc have nx: "\<not> P x" by auto
    from Cons.prems Suc have "j' < length xs" "P (xs ! j')" "\<forall>i<j'. \<not> P (xs ! i)" by auto
    from Cons.IH [OF this, of "Suc n"] obtain rest where
      "filter (\<lambda>(k, x). P x) (enumerate (Suc n) xs) = (Suc n + j', xs ! j') # rest" by blast
    with nx Suc show ?thesis by simp
  qed
qed

lemma alive_positions_first:
  assumes "j < length (characters player_info)"
    and "alive (character (characters player_info ! j))"
    and "\<forall>i<j. \<not> alive (character (characters player_info ! i))"
  shows "\<exists>rest. alive_positions player_info = CharPos j # rest"
proof -
  from filter_enumerate_first [where P = "\<lambda>c. alive (character c)" and n = 0, OF assms]
  obtain rest where
    "filter (\<lambda>(k, x). alive (character x)) (enumerate 0 (characters player_info))
       = (j, characters player_info ! j) # rest" by auto
  then show ?thesis by (simp add: alive_positions_def)
qed

lemma alive_positions_empty:
  "alive_positions player_info = [] \<longleftrightarrow>
     (\<forall>c \<in> set (characters player_info). \<not> alive (character c))"
proof -
  have "alive_positions player_info = [] \<longleftrightarrow>
        (\<forall>p \<in> set (enumerate 0 (characters player_info)). \<not> alive (character (snd p)))"
    by (auto simp: alive_positions_def filter_empty_conv)
  also have "\<dots> \<longleftrightarrow> (\<forall>c \<in> set (characters player_info). \<not> alive (character c))"
    by (metis (no_types, lifting) map_snd_enumerate set_map image_iff)
  finally show ?thesis .
qed

lemma alive_positions_least:
  assumes "\<exists>c \<in> set (characters player_info). alive (character c)"
  shows "\<exists>j rest. j < length (characters player_info)
           \<and> alive (character (characters player_info ! j))
           \<and> (\<forall>i<j. \<not> alive (character (characters player_info ! i)))
           \<and> alive_positions player_info = CharPos j # rest"
proof -
  let ?cs = "characters player_info"
  let ?Q = "\<lambda>j. j < length ?cs \<and> alive (character (?cs ! j))"
  from assms obtain j0 where "?Q j0" by (auto simp: in_set_conv_nth)
  define j where "j = (LEAST j. ?Q j)"
  have q: "?Q j" unfolding j_def using \<open>?Q j0\<close> by (rule LeastI)
  have m: "\<forall>i<j. \<not> alive (character (?cs ! i))"
  proof (intro allI impI)
    fix i assume "i < j"
    then have "\<not> ?Q i" unfolding j_def by (rule not_less_Least)
    moreover from \<open>i < j\<close> q have "i < length ?cs" by simp
    ultimately show "\<not> alive (character (?cs ! i))" by simp
  qed
  from alive_positions_first [of j player_info] q m obtain rest where
    "alive_positions player_info = CharPos j # rest" by blast
  with q m show ?thesis by blast
qed

section \<open>The scans only take unused dice\<close>

lemma takes_refl: "takes ps want s s []"
  by (simp add: takes_def)

lemma takes_skip: "takes rest want s s' new \<Longrightarrow> takes (p # rest) want s s' new"
  by (auto simp: takes_def)

lemma takes_one:
  "idx < length used \<Longrightarrow> \<not> used ! idx \<Longrightarrow> want die
    \<Longrightarrow> takes ((idx, die) # rest) want (dice_idx, used) (dice_idx @ [idx], used[idx := True]) [idx]"
  by (auto simp: takes_def nth_list_update)

lemma takes_Cons:
  assumes "idx < length used" and "\<not> used ! idx" and "want die"
    and "takes rest want (dice_idx @ [idx], used[idx := True]) s' new"
  shows "takes ((idx, die) # rest) want (dice_idx, used) s' (idx # new)"
proof -
  from assms(4) have f: "fst s' = (dice_idx @ [idx]) @ new" and d: "distinct new"
    and n: "\<forall>i \<in> set new. \<not> used[idx := True] ! i \<and> (\<exists>d. (i, d) \<in> set rest \<and> want d)"
    and l: "length (snd s') = length used"
    and u: "\<forall>i < length used. snd s' ! i = (used[idx := True] ! i \<or> i \<in> set new)"
    by (simp_all add: takes_def)
  from n assms(1) have ni: "idx \<notin> set new" by auto
  from n assms(1) have nu: "\<forall>i \<in> set new. \<not> used ! i"
    by (metis nth_list_update_neq nth_list_update_eq)
  from u assms(1) have u': "\<forall>i < length used. snd s' ! i = (used ! i \<or> i \<in> set (idx # new))"
    by (auto simp: nth_list_update)
  from f d n l ni nu u' assms(2,3) show ?thesis
    by (auto simp: takes_def)
qed

lemma takes_weaken:
  "takes ps want s s' new \<Longrightarrow> (\<And>d. want d \<Longrightarrow> want' d) \<Longrightarrow> takes ps want' s s' new"
  by (fastforce simp: takes_def)

lemma scan_take_takes:
  "\<forall>p \<in> set ps. fst p < length used
    \<Longrightarrow> \<exists>new. takes ps want (dice_idx, used) (snd (scan_take want ps (remaining, dice_idx, used))) new"
proof (induction ps arbitrary: remaining dice_idx used)
  case Nil
  show ?case by (auto intro!: exI takes_refl)
next
  case (Cons p ps)
  obtain idx die where p: "p = (idx, die)" by (cases p)
  from Cons.prems p have i: "idx < length used" and r: "\<forall>p \<in> set ps. fst p < length used" by auto
  show ?case
  proof (cases "\<not> used ! idx \<and> idx \<notin> set dice_idx \<and> want die")
    case False
    from Cons.IH [OF r, of dice_idx remaining] obtain new where
      "takes ps want (dice_idx, used) (snd (scan_take want ps (remaining, dice_idx, used))) new" by blast
    with False p show ?thesis by (auto intro: takes_skip)
  next
    case True
    show ?thesis
    proof (cases "remaining - 1 = 0")
      case True
      with \<open>\<not> used ! idx \<and> idx \<notin> set dice_idx \<and> want die\<close> p i show ?thesis
        using takes_one [of idx used want die ps dice_idx] by auto
    next
      case False
      from r have r': "\<forall>p \<in> set ps. fst p < length (used[idx := True])" by simp
      from Cons.IH [OF r', of "dice_idx @ [idx]" "remaining - 1"] obtain new where
        "takes ps want (dice_idx @ [idx], used[idx := True])
           (snd (scan_take want ps (remaining - 1, dice_idx @ [idx], used[idx := True]))) new" by blast
      from takes_Cons [OF i _ _ this] True False p show ?thesis by auto
    qed
  qed
qed

lemma same_take_takes:
  "\<forall>p \<in> set ps. fst p < length used
    \<Longrightarrow> \<exists>new. takes ps (\<lambda>d. d = element) (dice_idx, used)
                (snd (same_take element ps (remaining, dice_idx, used))) new"
proof (induction ps arbitrary: remaining dice_idx used)
  case Nil
  show ?case by (auto intro!: exI takes_refl)
next
  case (Cons p ps)
  obtain idx die where p: "p = (idx, die)" by (cases p)
  from Cons.prems p have i: "idx < length used" and r: "\<forall>p \<in> set ps. fst p < length used" by auto
  show ?case
  proof (cases "\<not> used ! idx \<and> element = die")
    case False
    from Cons.IH [OF r, of dice_idx remaining] obtain new where
      "takes ps (\<lambda>d. d = element) (dice_idx, used)
         (snd (same_take element ps (remaining, dice_idx, used))) new" by blast
    with False p show ?thesis by (auto intro: takes_skip)
  next
    case True
    show ?thesis
    proof (cases "remaining - 1 = 0")
      case True
      with \<open>\<not> used ! idx \<and> element = die\<close> p i show ?thesis
        using takes_one [of idx used "\<lambda>d. d = element" die ps dice_idx] by auto
    next
      case False
      from r have r': "\<forall>p \<in> set ps. fst p < length (used[idx := True])" by simp
      from Cons.IH [OF r', of "dice_idx @ [idx]" "remaining - 1"] obtain new where
        "takes ps (\<lambda>d. d = element) (dice_idx @ [idx], used[idx := True])
           (snd (same_take element ps (remaining - 1, dice_idx @ [idx], used[idx := True]))) new"
        by blast
      from takes_Cons [OF i _ _ this] True False p show ?thesis by auto
    qed
  qed
qed

lemma omni_fill_takes:
  "\<forall>p \<in> set ps. fst p < length used
    \<Longrightarrow> \<exists>new. takes ps (\<lambda>d. d = element \<or> d = OMNI) (dice_idx, used)
                (snd (snd (omni_fill element ps (other_remaining, omni_remaining, dice_idx, used)))) new"
proof (induction ps arbitrary: other_remaining omni_remaining dice_idx used)
  case Nil
  show ?case by (auto intro!: exI takes_refl)
next
  case (Cons p ps)
  obtain idx die where p: "p = (idx, die)" by (cases p)
  from Cons.prems p have i: "idx < length used" and r: "\<forall>p \<in> set ps. fst p < length used" by auto
  from r have r': "\<forall>p \<in> set ps. fst p < length (used[idx := True])" by simp
  consider (skip) "used ! idx \<or> (element \<noteq> die \<and> \<not> (omni_remaining > 0 \<and> die = OMNI))"
    | (own) "\<not> used ! idx" "element = die"
    | (omni) "\<not> used ! idx" "element \<noteq> die" "omni_remaining > 0" "die = OMNI"
    by blast
  then show ?case
  proof cases
    case skip
    from Cons.IH [OF r, of dice_idx other_remaining omni_remaining] obtain new where
      "takes ps (\<lambda>d. d = element \<or> d = OMNI) (dice_idx, used)
         (snd (snd (omni_fill element ps (other_remaining, omni_remaining, dice_idx, used)))) new"
      by blast
    then have "takes (p # ps) (\<lambda>d. d = element \<or> d = OMNI) (dice_idx, used)
         (snd (snd (omni_fill element ps (other_remaining, omni_remaining, dice_idx, used)))) new"
      by (rule takes_skip)
    moreover from skip p
    have "omni_fill element (p # ps) (other_remaining, omni_remaining, dice_idx, used)
            = omni_fill element ps (other_remaining, omni_remaining, dice_idx, used)"
      by auto
    ultimately show ?thesis by auto
  next
    case own
    from Cons.IH [OF r', of "dice_idx @ [idx]" "other_remaining - 1" omni_remaining] obtain new where
      "takes ps (\<lambda>d. d = element \<or> d = OMNI) (dice_idx @ [idx], used[idx := True])
         (snd (snd (omni_fill element ps
            (other_remaining - 1, omni_remaining, dice_idx @ [idx], used[idx := True])))) new"
      by blast
    from takes_Cons [OF i _ _ this, of die] own p show ?thesis by auto
  next
    case omni
    from Cons.IH [OF r', of "dice_idx @ [idx]" other_remaining "omni_remaining - 1"] obtain new where
      "takes ps (\<lambda>d. d = element \<or> d = OMNI) (dice_idx @ [idx], used[idx := True])
         (snd (snd (omni_fill element ps
            (other_remaining, omni_remaining - 1, dice_idx @ [idx], used[idx := True])))) new"
      by blast
    from takes_Cons [OF i _ _ this, of die] omni p show ?thesis by auto
  qed
qed

lemma char_fill_takes:
  "\<forall>p \<in> set ps. fst p < length used
    \<Longrightarrow> \<exists>new. takes ps (\<lambda>d. d = char_element \<or> d = OMNI) (dice_idx, used)
                (snd (char_fill char_element ps (char_elem_remaining, omni_remaining, dice_idx, used))) new"
proof (induction ps arbitrary: char_elem_remaining omni_remaining dice_idx used)
  case Nil
  show ?case by (auto intro!: exI takes_refl)
next
  case (Cons p ps)
  obtain idx die where p: "p = (idx, die)" by (cases p)
  from Cons.prems p have i: "idx < length used" and r: "\<forall>p \<in> set ps. fst p < length used" by auto
  from r have r': "\<forall>p \<in> set ps. fst p < length (used[idx := True])" by simp
  consider (used) "used ! idx"
    | (none) "\<not> used ! idx" "char_element \<noteq> die" "\<not> (omni_remaining > 0 \<and> die = OMNI)"
    | (own) "\<not> used ! idx" "char_element = die"
    | (omni) "\<not> used ! idx" "char_element \<noteq> die" "omni_remaining > 0" "die = OMNI"
    by blast
  then show ?case
  proof cases
    case used
    from Cons.IH [OF r, of dice_idx char_elem_remaining omni_remaining] obtain new where
      "takes ps (\<lambda>d. d = char_element \<or> d = OMNI) (dice_idx, used)
         (snd (char_fill char_element ps (char_elem_remaining, omni_remaining, dice_idx, used))) new"
      by blast
    with used p show ?thesis by (auto intro: takes_skip)
  next
    case none
    show ?thesis
    proof (cases "char_elem_remaining = 0 \<and> omni_remaining = 0")
      case True
      with none p show ?thesis by (auto intro!: exI takes_refl)
    next
      case False
      from Cons.IH [OF r, of dice_idx char_elem_remaining omni_remaining] obtain new where
        "takes ps (\<lambda>d. d = char_element \<or> d = OMNI) (dice_idx, used)
           (snd (char_fill char_element ps (char_elem_remaining, omni_remaining, dice_idx, used))) new"
        by blast
      with none False p show ?thesis by (auto intro: takes_skip)
    qed
  next
    case own
    show ?thesis
    proof (cases "char_elem_remaining - 1 = 0 \<and> omni_remaining = 0")
      case True
      with own p i show ?thesis
        using takes_one [of idx used "\<lambda>d. d = char_element \<or> d = OMNI" die ps dice_idx] by auto
    next
      case False
      from Cons.IH [OF r', of "dice_idx @ [idx]" "char_elem_remaining - 1" omni_remaining]
      obtain new where
        "takes ps (\<lambda>d. d = char_element \<or> d = OMNI) (dice_idx @ [idx], used[idx := True])
           (snd (char_fill char_element ps
              (char_elem_remaining - 1, omni_remaining, dice_idx @ [idx], used[idx := True]))) new"
        by blast
      from takes_Cons [OF i _ _ this, of die] own False p show ?thesis by auto
    qed
  next
    case omni
    show ?thesis
    proof (cases "char_elem_remaining = 0 \<and> omni_remaining - 1 = 0")
      case True
      with omni p i show ?thesis
        using takes_one [of idx used "\<lambda>d. d = char_element \<or> d = OMNI" die ps dice_idx] by auto
    next
      case False
      from Cons.IH [OF r', of "dice_idx @ [idx]" char_elem_remaining "omni_remaining - 1"]
      obtain new where
        "takes ps (\<lambda>d. d = char_element \<or> d = OMNI) (dice_idx @ [idx], used[idx := True])
           (snd (char_fill char_element ps
              (char_elem_remaining, omni_remaining - 1, dice_idx @ [idx], used[idx := True]))) new"
        by blast
      from takes_Cons [OF i _ _ this, of die] omni False p show ?thesis by auto
    qed
  qed
qed

section \<open>The invariant of the selection\<close>

lemma sel_ok_init: "sel_ok (length dice) ([], replicate (length dice) False)"
  by (simp add: sel_ok_def)

lemma takes_sel_ok:
  assumes "sel_ok n s" and "takes ps want s s' new" and "\<forall>p \<in> set ps. fst p < n"
  shows "sel_ok n s'"
proof -
  from assms(1) have l: "length (snd s) = n" and d: "distinct (fst s)"
    and m: "\<forall>i. i \<in> set (fst s) \<longleftrightarrow> i < n \<and> snd s ! i" by (simp_all add: sel_ok_def)
  from assms(2) have f: "fst s' = fst s @ new" and dn: "distinct new"
    and nw: "\<forall>i \<in> set new. \<not> snd s ! i \<and> (\<exists>d. (i, d) \<in> set ps \<and> want d)"
    and l': "length (snd s') = length (snd s)"
    and u: "\<forall>i < length (snd s). snd s' ! i = (snd s ! i \<or> i \<in> set new)"
    by (simp_all add: takes_def)
  from nw assms(3) have lt: "\<forall>i \<in> set new. i < n" by fastforce
  from nw m have dj: "set (fst s) \<inter> set new = {}" by auto
  have "distinct (fst s')" using f d dn dj by simp
  moreover have "\<forall>i. i \<in> set (fst s') \<longleftrightarrow> i < n \<and> snd s' ! i"
    using f m u l lt by auto
  ultimately show ?thesis using l l' by (simp add: sel_ok_def)
qed

lemma enumerate_bound: "\<forall>p \<in> set (enumerate 0 dice). fst p < length dice"
  by (simp add: in_set_enumerate_eq)

lemma scan_take_sel_ok:
  assumes "sel_ok (length dice) s"
  shows "sel_ok (length dice) (snd (scan_take want (enumerate 0 dice) (remaining, s)))"
proof -
  obtain dice_idx used where s: "s = (dice_idx, used)" by (cases s)
  with assms have l: "length used = length dice" by (simp add: sel_ok_def)
  with enumerate_bound have "\<forall>p \<in> set (enumerate 0 dice). fst p < length used" by simp
  from scan_take_takes [OF this, of want dice_idx remaining] obtain new where
    "takes (enumerate 0 dice) want (dice_idx, used)
       (snd (scan_take want (enumerate 0 dice) (remaining, dice_idx, used))) new" by blast
  from takes_sel_ok [OF _ this enumerate_bound] assms s show ?thesis by simp
qed

lemma scan_more_sel_ok:
  assumes "sel_ok (length dice) (snd rs)"
  shows "sel_ok (length dice) (snd (scan_more want (enumerate 0 dice) rs))"
proof -
  obtain remaining s where "rs = (remaining, s)" by (cases rs)
  with assms scan_take_sel_ok [of dice s want remaining] show ?thesis
    by (simp add: scan_more_def)
qed

lemma same_take_sel_ok:
  assumes "sel_ok (length dice) s"
  shows "sel_ok (length dice) (snd (same_take element (enumerate 0 dice) (remaining, s)))"
proof -
  obtain dice_idx used where s: "s = (dice_idx, used)" by (cases s)
  with assms have l: "length used = length dice" by (simp add: sel_ok_def)
  with enumerate_bound have "\<forall>p \<in> set (enumerate 0 dice). fst p < length used" by simp
  from same_take_takes [OF this, of element dice_idx remaining] obtain new where
    "takes (enumerate 0 dice) (\<lambda>d. d = element) (dice_idx, used)
       (snd (same_take element (enumerate 0 dice) (remaining, dice_idx, used))) new" by blast
  from takes_sel_ok [OF _ this enumerate_bound] assms s show ?thesis by simp
qed

lemma omni_fill_sel_ok:
  assumes "sel_ok (length dice) s"
  shows "sel_ok (length dice)
           (snd (snd (omni_fill element (enumerate 0 dice) (other_remaining, omni_remaining, s))))"
proof -
  obtain dice_idx used where s: "s = (dice_idx, used)" by (cases s)
  with assms have l: "length used = length dice" by (simp add: sel_ok_def)
  with enumerate_bound have "\<forall>p \<in> set (enumerate 0 dice). fst p < length used" by simp
  from omni_fill_takes [OF this, of element dice_idx other_remaining omni_remaining] obtain new where
    "takes (enumerate 0 dice) (\<lambda>d. d = element \<or> d = OMNI) (dice_idx, used)
       (snd (snd (omni_fill element (enumerate 0 dice)
          (other_remaining, omni_remaining, dice_idx, used)))) new" by blast
  from takes_sel_ok [OF _ this enumerate_bound] assms s show ?thesis by simp
qed

lemma char_fill_sel_ok:
  assumes "sel_ok (length dice) s"
  shows "sel_ok (length dice)
           (snd (char_fill char_element (enumerate 0 dice) (char_elem_remaining, omni_remaining, s)))"
proof -
  obtain dice_idx used where s: "s = (dice_idx, used)" by (cases s)
  with assms have l: "length used = length dice" by (simp add: sel_ok_def)
  with enumerate_bound have "\<forall>p \<in> set (enumerate 0 dice). fst p < length used" by simp
  from char_fill_takes [OF this, of char_element dice_idx char_elem_remaining omni_remaining]
  obtain new where
    "takes (enumerate 0 dice) (\<lambda>d. d = char_element \<or> d = OMNI) (dice_idx, used)
       (snd (char_fill char_element (enumerate 0 dice)
          (char_elem_remaining, omni_remaining, dice_idx, used))) new" by blast
  from takes_sel_ok [OF _ this enumerate_bound] assms s show ?thesis by simp
qed

lemma same_exact_sel_ok:
  "sel_ok (length dice) (snd rs) \<Longrightarrow> same_exact dice char_element val items rs = Some rs'
    \<Longrightarrow> sel_ok (length dice) (snd rs')"
proof (induction items)
  case Nil
  then show ?case by simp
next
  case (Cons item items)
  obtain element cnt where i: "item = (element, cnt)" by (cases item)
  obtain remaining s where rs: "rs = (remaining, s)" by (cases rs)
  from Cons i rs same_take_sel_ok [of dice s element remaining] show ?case
    by (auto split: if_splits)
qed

lemma same_with_omni_sel_ok:
  "sel_ok (length dice) s
    \<Longrightarrow> sel_ok (length dice) (snd (same_with_omni dice char_element val omni_count items s))"
proof (induction items)
  case Nil
  then show ?case by simp
next
  case (Cons item items)
  obtain element cnt where i: "item = (element, cnt)" by (cases item)
  from Cons i omni_fill_sel_ok [of dice s element cnt "val - cnt"] show ?case
    by (auto split: prod.splits)
qed

lemma same_key_sel_ok:
  assumes "sel_ok (length dice) s" and "same_key dice char_element val s = Some s'"
  shows "sel_ok (length dice) s'"
proof -
  define dc where "dc = counter_ensure char_element (counter_ensure OMNI (Counter (unused_dice dice (snd s))))"
  define oc where "oc = counter_get (sorted_asc dc) OMNI"
  define w where "w = same_with_omni dice char_element val oc (sorted_desc dc) s"
  define cc where "cc = counter_get dc char_element"
  show ?thesis
  proof (cases "same_exact dice char_element val (sorted_asc dc) (val, s)")
    case (Some rs)
    with assms(2) have "s' = snd rs"
      by (auto simp: same_key_def Let_def dc_def split: prod.splits)
    with same_exact_sel_ok [OF _ Some] assms(1) show ?thesis by simp
  next
    case None
    from same_with_omni_sel_ok [OF assms(1), of char_element val oc "sorted_desc dc"]
    have wok: "sel_ok (length dice) (snd w)" by (simp add: w_def)
    show ?thesis
    proof (cases "fst w")
      case True
      with None assms(2) have "s' = snd w"
        by (auto simp: same_key_def Let_def dc_def oc_def w_def split: prod.splits bool.splits)
      with wok show ?thesis by simp
    next
      case False
      with None assms(2) have
        "s' = snd (char_fill char_element (enumerate 0 dice) (min cc val, val - min cc val, snd w))"
        by (auto simp: same_key_def Let_def dc_def oc_def w_def cc_def
            split: prod.splits bool.splits if_splits)
      with char_fill_sel_ok [OF wok] show ?thesis by simp
    qed
  qed
qed

lemma greedy_keys_sel_ok:
  "sel_ok (length dice) s \<Longrightarrow> greedy_keys dice char_element cost s = Some s'
    \<Longrightarrow> sel_ok (length dice) s'"
proof (induction cost arbitrary: s)
  case Nil
  then show ?case by simp
next
  case (Cons kv cost)
  obtain key val where kv: "kv = (key, val)" by (cases kv)
  consider (major) "1 \<le> elem_value key \<and> elem_value key \<le> 7"
    | (any) "\<not> (1 \<le> elem_value key \<and> elem_value key \<le> 7)" "key = ANY"
    | (same) "\<not> (1 \<le> elem_value key \<and> elem_value key \<le> 7)" "key \<noteq> ANY" "key = SAME"
    | (other) "\<not> (1 \<le> elem_value key \<and> elem_value key \<le> 7)" "key \<noteq> ANY" "key \<noteq> SAME"
    by blast
  then show ?case
  proof cases
    case major
    define r where "r = scan_more (\<lambda>die. die = OMNI) (enumerate 0 dice)
                (scan_take (\<lambda>die. die = key) (enumerate 0 dice) (val, s))"
    have ok: "sel_ok (length dice) (snd r)"
      unfolding r_def by (intro scan_more_sel_ok scan_take_sel_ok Cons.prems(1))
    from Cons.prems(2) kv major have "greedy_keys dice char_element cost (snd r) = Some s'"
      by (auto simp: r_def split: prod.splits if_splits)
    from Cons.IH [OF ok this] show ?thesis .
  next
    case any
    define r where "r = scan_more (\<lambda>die. die = OMNI) (enumerate 0 dice)
                (scan_more (\<lambda>die. die = char_element) (enumerate 0 dice)
                   (scan_take (\<lambda>die. die \<noteq> char_element) (enumerate 0 dice) (val, s)))"
    have ok: "sel_ok (length dice) (snd r)"
      unfolding r_def by (intro scan_more_sel_ok scan_take_sel_ok Cons.prems(1))
    from Cons.prems(2) kv any have "greedy_keys dice char_element cost (snd r) = Some s'"
      by (auto simp: r_def split: prod.splits if_splits)
    from Cons.IH [OF ok this] show ?thesis .
  next
    case same
    with Cons.prems(2) kv obtain s1 where k: "same_key dice char_element val s = Some s1"
      and g: "greedy_keys dice char_element cost s1 = Some s'"
      by (auto split: option.splits)
    from Cons.IH [OF same_key_sel_ok [OF Cons.prems(1) k] g] show ?thesis .
  next
    case other
    with Cons.prems(2) kv have "greedy_keys dice char_element cost s = Some s'" by simp
    from Cons.IH [OF Cons.prems(1) this] show ?thesis .
  qed
qed

lemma greedy_select_ok:
  assumes "greedy_select dice cost char_element = Some dice_idx"
  shows "distinct dice_idx \<and> (\<forall>i \<in> set dice_idx. i < length dice)"
proof -
  from assms obtain s' where g: "greedy_keys dice char_element cost ([], replicate (length dice) False) = Some s'"
    and d: "dice_idx = fst s'" by (auto simp: greedy_select_def)
  from greedy_keys_sel_ok [OF sel_ok_init g] d show ?thesis by (simp add: sel_ok_def)
qed

section \<open>Counting the dice taken\<close>

lemma avail_Nil [simp]: "avail el [] used = 0"
  by (simp add: avail_def)

lemma avail_Cons [simp]:
  "avail el ((idx, die) # ps) used
     = (if \<not> used ! idx \<and> die = el then Suc (avail el ps used) else avail el ps used)"
  by (simp add: avail_def)

lemma avail_update:
  assumes "idx \<notin> fst ` set ps"
  shows "avail el ps (used[idx := True]) = avail el ps used"
proof -
  from assms have ne: "\<And>i d. (i, d) \<in> set ps \<Longrightarrow> idx \<noteq> i" by force
  have "filter (\<lambda>(i, d). \<not> used[idx := True] ! i \<and> d = el) ps
           = filter (\<lambda>(i, d). \<not> used ! i \<and> d = el) ps"
    by (rule filter_cong [OF refl]) (auto dest: ne)
  then show ?thesis by (simp add: avail_def)
qed

text \<open>Bookkeeping: every index appended lowers a counter by one.\<close>

lemma scan_take_length:
  "scan_take want ps (remaining, dice_idx, used) = (remaining', dice_idx', used')
    \<Longrightarrow> int (length dice_idx') = int (length dice_idx) + (remaining - remaining')
        \<and> (1 \<le> remaining \<longrightarrow> 0 \<le> remaining')"
proof (induction ps arbitrary: remaining dice_idx used)
  case Nil
  then show ?case by auto
next
  case (Cons p ps)
  obtain idx die where p: "p = (idx, die)" by (cases p)
  show ?case
  proof (cases "\<not> used ! idx \<and> idx \<notin> set dice_idx \<and> want die")
    case False
    with Cons.prems p have "scan_take want ps (remaining, dice_idx, used) = (remaining', dice_idx', used')"
      by (auto split: if_splits)
    from Cons.IH [OF this] show ?thesis .
  next
    case True
    show ?thesis
    proof (cases "remaining - 1 = 0")
      case True
      with \<open>\<not> used ! idx \<and> idx \<notin> set dice_idx \<and> want die\<close> Cons.prems p show ?thesis by auto
    next
      case False
      with True Cons.prems p have "scan_take want ps (remaining - 1, dice_idx @ [idx], used[idx := True]) = (remaining', dice_idx', used')"
      by (auto split: if_splits)
      from Cons.IH [OF this] False show ?thesis by auto
    qed
  qed
qed

lemma scan_more_length:
  assumes "scan_more want ps (remaining, dice_idx, used) = (remaining', dice_idx', used')"
  shows "int (length dice_idx') = int (length dice_idx) + (remaining - remaining')
        \<and> (0 \<le> remaining \<longrightarrow> 0 \<le> remaining')"
proof (cases "remaining > 0")
  case True
  with assms have "scan_take want ps (remaining, dice_idx, used) = (remaining', dice_idx', used')"
    by (simp add: scan_more_def)
  from scan_take_length [OF this] True show ?thesis by simp
next
  case False
  with assms show ?thesis by (simp add: scan_more_def)
qed

lemma same_take_length:
  "same_take element ps (remaining, dice_idx, used) = (remaining', dice_idx', used')
    \<Longrightarrow> int (length dice_idx') = int (length dice_idx) + (remaining - remaining')"
proof (induction ps arbitrary: remaining dice_idx used)
  case Nil
  then show ?case by auto
next
  case (Cons p ps)
  obtain idx die where p: "p = (idx, die)" by (cases p)
  show ?case
  proof (cases "\<not> used ! idx \<and> element = die")
    case False
    with Cons.prems p have "same_take element ps (remaining, dice_idx, used) = (remaining', dice_idx', used')"
      by (auto split: if_splits)
    from Cons.IH [OF this] show ?thesis .
  next
    case True
    show ?thesis
    proof (cases "remaining - 1 = 0")
      case True
      with \<open>\<not> used ! idx \<and> element = die\<close> Cons.prems p show ?thesis by auto
    next
      case False
      with True Cons.prems p have "same_take element ps (remaining - 1, dice_idx @ [idx], used[idx := True]) = (remaining', dice_idx', used')"
      by (auto split: if_splits)
      from Cons.IH [OF this] show ?thesis by auto
    qed
  qed
qed

lemma same_take_enough:
  "distinct (map fst ps) \<Longrightarrow> 1 \<le> remaining \<Longrightarrow> remaining \<le> int (avail element ps used)
    \<Longrightarrow> fst (same_take element ps (remaining, dice_idx, used)) = 0"
proof (induction ps arbitrary: remaining dice_idx used)
  case Nil
  then show ?case by simp
next
  case (Cons p ps)
  obtain idx die where p: "p = (idx, die)" by (cases p)
  from Cons.prems(1) p have d: "distinct (map fst ps)" and ni: "idx \<notin> fst ` set ps" by auto
  show ?case
  proof (cases "\<not> used ! idx \<and> element = die")
    case False
    with Cons.prems(3) p have "remaining \<le> int (avail element ps used)" by auto
    from Cons.IH [OF d Cons.prems(2) this, of dice_idx] False p show ?thesis by auto
  next
    case True
    show ?thesis
    proof (cases "remaining - 1 = 0")
      case True
      with \<open>\<not> used ! idx \<and> element = die\<close> p show ?thesis by auto
    next
      case False
      with Cons.prems(2) have r: "1 \<le> remaining - 1" by simp
      from True Cons.prems(3) p avail_update [OF ni, of element used]
      have "remaining - 1 \<le> int (avail element ps (used[idx := True]))" by auto
      from Cons.IH [OF d r this, of "dice_idx @ [idx]"] True False p show ?thesis by auto
    qed
  qed
qed

lemma omni_fill_length:
  "omni_fill element ps (other_remaining, omni_remaining, dice_idx, used)
      = (other_remaining', omni_remaining', dice_idx', used')
    \<Longrightarrow> int (length dice_idx')
        = int (length dice_idx) + (other_remaining - other_remaining') + (omni_remaining - omni_remaining')"
proof (induction ps arbitrary: other_remaining omni_remaining dice_idx used)
  case Nil
  then show ?case by auto
next
  case (Cons p ps)
  obtain idx die where p: "p = (idx, die)" by (cases p)
  consider (skip) "used ! idx \<or> (element \<noteq> die \<and> \<not> (omni_remaining > 0 \<and> die = OMNI))"
    | (own) "\<not> used ! idx" "element = die"
    | (omni) "\<not> used ! idx" "element \<noteq> die" "omni_remaining > 0" "die = OMNI"
    by blast
  then show ?case
  proof cases
    case skip
    with Cons.prems p have "omni_fill element ps (other_remaining, omni_remaining, dice_idx, used) = (other_remaining', omni_remaining', dice_idx', used')"
      by (auto split: if_splits)
    from Cons.IH [OF this] show ?thesis .
  next
    case own
    with Cons.prems p have "omni_fill element ps (other_remaining - 1, omni_remaining, dice_idx @ [idx], used[idx := True]) = (other_remaining', omni_remaining', dice_idx', used')"
      by (auto split: if_splits)
    from Cons.IH [OF this] show ?thesis by auto
  next
    case omni
    with Cons.prems p have "omni_fill element ps (other_remaining, omni_remaining - 1, dice_idx @ [idx], used[idx := True]) = (other_remaining', omni_remaining', dice_idx', used')"
      by (auto split: if_splits)
    from Cons.IH [OF this] show ?thesis by auto
  qed
qed

lemma omni_fill_counts:
  "distinct (map fst ps) \<Longrightarrow> element \<noteq> OMNI
    \<Longrightarrow> omni_fill element ps (other_remaining, omni_remaining, dice_idx, used)
          = (other_remaining', omni_remaining', s')
    \<Longrightarrow> other_remaining' = other_remaining - int (avail element ps used)
        \<and> (0 \<le> omni_remaining
             \<longrightarrow> omni_remaining' = max 0 (omni_remaining - int (avail OMNI ps used)))"
proof (induction ps arbitrary: other_remaining omni_remaining dice_idx used)
  case Nil
  then show ?case by auto
next
  case (Cons p ps)
  obtain idx die where p: "p = (idx, die)" by (cases p)
  from Cons.prems(1) p have d: "distinct (map fst ps)" and ni: "idx \<notin> fst ` set ps" by auto
  note up = avail_update [OF ni, of _ used]
  consider (skip) "used ! idx \<or> (element \<noteq> die \<and> \<not> (omni_remaining > 0 \<and> die = OMNI))"
    | (own) "\<not> used ! idx" "element = die"
    | (omni) "\<not> used ! idx" "element \<noteq> die" "omni_remaining > 0" "die = OMNI"
    by blast
  then show ?case
  proof cases
    case skip
    with Cons.prems(3) p have "omni_fill element ps (other_remaining, omni_remaining, dice_idx, used) = (other_remaining', omni_remaining', s')"
      by (auto split: if_splits)
    from Cons.IH [OF d Cons.prems(2) this] skip p show ?thesis by auto
  next
    case own
    with Cons.prems(3) p have "omni_fill element ps (other_remaining - 1, omni_remaining, dice_idx @ [idx], used[idx := True]) = (other_remaining', omni_remaining', s')"
      by (auto split: if_splits)
    from Cons.IH [OF d Cons.prems(2) this] own p up Cons.prems(2) show ?thesis by auto
  next
    case omni
    with Cons.prems(3) p have "omni_fill element ps (other_remaining, omni_remaining - 1, dice_idx @ [idx], used[idx := True]) = (other_remaining', omni_remaining', s')"
      by (auto split: if_splits)
    from Cons.IH [OF d Cons.prems(2) this] omni p up show ?thesis by auto
  qed
qed

lemma char_fill_length:
  "char_fill char_element ps (char_elem_remaining, omni_remaining, dice_idx, used)
      = (True, dice_idx', used')
    \<Longrightarrow> int (length dice_idx') = int (length dice_idx) + char_elem_remaining + omni_remaining"
proof (induction ps arbitrary: char_elem_remaining omni_remaining dice_idx used)
  case Nil
  then show ?case by auto
next
  case (Cons p ps)
  obtain idx die where p: "p = (idx, die)" by (cases p)
  consider (used) "used ! idx"
    | (none) "\<not> used ! idx" "char_element \<noteq> die" "\<not> (omni_remaining > 0 \<and> die = OMNI)"
    | (own) "\<not> used ! idx" "char_element = die"
    | (omni) "\<not> used ! idx" "char_element \<noteq> die" "omni_remaining > 0" "die = OMNI"
    by blast
  then show ?case
  proof cases
    case used
    with Cons.prems p have "char_fill char_element ps (char_elem_remaining, omni_remaining, dice_idx, used) = (True, dice_idx', used')"
      by (auto split: if_splits)
    from Cons.IH [OF this] show ?thesis .
  next
    case none
    show ?thesis
    proof (cases "char_elem_remaining = 0 \<and> omni_remaining = 0")
      case True
      with none Cons.prems p show ?thesis by auto
    next
      case False
      with none Cons.prems p have "char_fill char_element ps (char_elem_remaining, omni_remaining, dice_idx, used) = (True, dice_idx', used')"
      by (auto split: if_splits)
      from Cons.IH [OF this] show ?thesis .
    qed
  next
    case own
    show ?thesis
    proof (cases "char_elem_remaining - 1 = 0 \<and> omni_remaining = 0")
      case True
      with own Cons.prems p show ?thesis by auto
    next
      case False
      with own Cons.prems p have "char_fill char_element ps (char_elem_remaining - 1, omni_remaining, dice_idx @ [idx], used[idx := True]) = (True, dice_idx', used')"
      by (auto split: if_splits)
      from Cons.IH [OF this] show ?thesis by auto
    qed
  next
    case omni
    show ?thesis
    proof (cases "char_elem_remaining = 0 \<and> omni_remaining - 1 = 0")
      case True
      with omni Cons.prems p show ?thesis by auto
    next
      case False
      with omni Cons.prems p have "char_fill char_element ps (char_elem_remaining, omni_remaining - 1, dice_idx @ [idx], used[idx := True]) = (True, dice_idx', used')"
      by (auto split: if_splits)
      from Cons.IH [OF this] show ?thesis by auto
    qed
  qed
qed

section \<open>The counter of unused dice\<close>

lemma counter_get_Nil [simp]: "counter_get [] k = 0"
  by (simp add: counter_get_def)

lemma counter_get_Cons [simp]:
  "counter_get ((k', c) # m) k = (if k = k' then c else counter_get m k)"
  by (simp add: counter_get_def)

lemma counter_incr_keys: "fst ` set (counter_incr x m) = insert x (fst ` set m)"
proof (induction m)
  case Nil
  show ?case by simp
next
  case (Cons kc m)
  obtain k c where "kc = (k, c)" by (cases kc)
  with Cons show ?case by (cases "k = x") auto
qed

lemma counter_incr_distinct:
  "distinct (map fst m) \<Longrightarrow> distinct (map fst (counter_incr x m))"
  by (induction m) (auto simp: counter_incr_keys)

lemma counter_incr_get:
  "counter_get (counter_incr x m) k = counter_get m k + (if k = x then 1 else 0)"
  by (induction m) auto

lemma counter_fold:
  "fst ` set (foldl (\<lambda>m x. counter_incr x m) m xs) = fst ` set m \<union> set xs
   \<and> (distinct (map fst m) \<longrightarrow> distinct (map fst (foldl (\<lambda>m x. counter_incr x m) m xs)))
   \<and> counter_get (foldl (\<lambda>m x. counter_incr x m) m xs) k = counter_get m k + int (count_list xs k)"
proof (induction xs arbitrary: m)
  case Nil
  show ?case by simp
next
  case (Cons x xs)
  from Cons.IH [of "counter_incr x m"] show ?case
    by (auto simp: counter_incr_keys counter_incr_distinct counter_incr_get)
qed

lemma Counter_keys: "fst ` set (Counter xs) = set xs"
  using counter_fold [of "[]" xs] by (simp add: Counter_def)

lemma Counter_distinct: "distinct (map fst (Counter xs))"
  using counter_fold [of "[]" xs] by (simp add: Counter_def)

lemma Counter_get: "counter_get (Counter xs) k = int (count_list xs k)"
  using counter_fold [of "[]" xs k] by (simp add: Counter_def)

lemma counter_get_append_zero: "counter_get (m @ [(k', 0)]) k = counter_get m k"
  by (induction m) auto

lemma counter_ensure_get: "counter_get (counter_ensure k' m) k = counter_get m k"
  by (simp add: counter_ensure_def counter_get_append_zero)

lemma counter_ensure_distinct:
  "distinct (map fst m) \<Longrightarrow> distinct (map fst (counter_ensure k' m))"
  by (auto simp: counter_ensure_def)

lemma counter_ensure_keys: "fst ` set (counter_ensure k' m) = insert k' (fst ` set m)"
  by (auto simp: counter_ensure_def)

lemma counter_get_item:
  "distinct (map fst m) \<Longrightarrow> (k, c) \<in> set m \<Longrightarrow> counter_get m k = c"
  by (simp add: counter_get_def)

lemma counter_get_key:
  "k \<in> fst ` set m \<Longrightarrow> distinct (map fst m) \<Longrightarrow> (k, counter_get m k) \<in> set m"
  using counter_get_item by fastforce

lemma sort_key_distinct_keys:
  "distinct (map fst (sort_key f m)) = distinct (map fst m)"
  by (simp add: distinct_map)

lemma map_of_set_eq:
  assumes "distinct (map fst m)" and "distinct (map fst m')" and "set m = set m'"
  shows "map_of m k = map_of m' k"
proof (cases "map_of m k")
  case None
  then have "k \<notin> fst ` set m" by (simp add: map_of_eq_None_iff)
  with assms(3) have "k \<notin> fst ` set m'" by simp
  then have "map_of m' k = None" by (simp add: map_of_eq_None_iff)
  with None show ?thesis by simp
next
  case (Some c)
  with assms(1) have "(k, c) \<in> set m" by simp
  with assms(3) have "(k, c) \<in> set m'" by simp
  with assms(2) have "map_of m' k = Some c" by simp
  with Some show ?thesis by simp
qed

lemma sort_key_counter_get:
  assumes "distinct (map fst m)"
  shows "counter_get (sort_key f m) k = counter_get m k"
proof -
  from assms have "distinct (map fst (sort_key f m))" by (simp add: sort_key_distinct_keys)
  from map_of_set_eq [OF this assms] have "map_of (sort_key f m) k = map_of m k" by simp
  then show ?thesis by (simp add: counter_get_def)
qed

lemma enumerate_nth: "enumerate 0 xs = map (\<lambda>i. (i, xs ! i)) [0..<length xs]"
  using enumerate_map_upt [of 0 "\<lambda>i. xs ! i" "length xs"] by (simp add: map_nth)

lemma count_list_map:
  "count_list (map g ys) el = length (filter (\<lambda>y. g y = el) ys)"
  by (induction ys) auto

lemma unused_dice_count:
  assumes "length used = length dice"
  shows "count_list (unused_dice dice used) el = avail el (enumerate 0 dice) used"
proof -
  let ?n = "length dice"
  have u: "unused_dice dice used = map (\<lambda>i. dice ! i) (filter (\<lambda>i. \<not> used ! i) [0..<?n])"
    unfolding unused_dice_def enumerate_nth filter_map assms by (simp add: comp_def)
  have "count_list (unused_dice dice used) el
      = length (filter (\<lambda>i. \<not> used ! i \<and> dice ! i = el) [0..<?n])"
    unfolding u count_list_map filter_filter ..
  moreover have "avail el (enumerate 0 dice) used
      = length (filter (\<lambda>i. \<not> used ! i \<and> dice ! i = el) [0..<?n])"
    unfolding avail_def enumerate_nth filter_map by (simp add: comp_def)
  ultimately show ?thesis by simp
qed

section \<open>The strategies of the \<^verbatim>\<open>SAME\<close> key\<close>

lemma distinct_fst_enumerate: "distinct (map fst (enumerate 0 dice))"
  by simp

lemma dice_counter_distinct: "distinct (map fst (dice_counter_of dice char_element used))"
  by (simp add: dice_counter_of_def counter_ensure_distinct Counter_distinct)

lemma dice_counter_get:
  "length used = length dice
    \<Longrightarrow> counter_get (dice_counter_of dice char_element used) k = int (avail k (enumerate 0 dice) used)"
  by (simp add: dice_counter_of_def counter_ensure_get Counter_get unused_dice_count)

lemma dice_counter_item:
  "length used = length dice \<Longrightarrow> (k, c) \<in> set (dice_counter_of dice char_element used)
    \<Longrightarrow> c = int (avail k (enumerate 0 dice) used)"
  using counter_get_item [OF dice_counter_distinct] dice_counter_get by metis

lemma dice_counter_has:
  assumes "length used = length dice" and "0 < avail k (enumerate 0 dice) used"
  shows "(k, int (avail k (enumerate 0 dice) used)) \<in> set (dice_counter_of dice char_element used)"
proof -
  from assms have "0 < count_list (unused_dice dice used) k" by (simp add: unused_dice_count)
  then have "k \<in> set (unused_dice dice used)" by (metis count_notin less_irrefl)
  then have "k \<in> fst ` set (dice_counter_of dice char_element used)"
    by (simp add: dice_counter_of_def counter_ensure_keys Counter_keys)
  from counter_get_key [OF this dice_counter_distinct] dice_counter_get [OF assms(1)]
  show ?thesis by simp
qed

lemma same_exact_None:
  "same_exact dice char_element val items rs = None
    \<longleftrightarrow> (\<forall>(el, c) \<in> set items. el = OMNI \<or> el = char_element \<or> c < val)"
  by (induction items) (auto split: if_splits)

lemma same_exact_Some:
  "same_exact dice char_element val items rs = Some r
    \<Longrightarrow> \<exists>el c. (el, c) \<in> set items \<and> el \<noteq> OMNI \<and> el \<noteq> char_element \<and> val \<le> c
          \<and> r = same_take el (enumerate 0 dice) rs"
proof (induction items)
  case Nil
  then show ?case by simp
next
  case (Cons item items)
  obtain el c where i: "item = (el, c)" by (cases item)
  show ?case
  proof (cases "el \<noteq> OMNI \<and> el \<noteq> char_element \<and> val \<le> c")
    case True
    with Cons.prems i have "r = same_take el (enumerate 0 dice) rs" by auto
    with True i have "(el, c) \<in> set (item # items) \<and> el \<noteq> OMNI \<and> el \<noteq> char_element \<and> val \<le> c
          \<and> r = same_take el (enumerate 0 dice) rs" by simp
    then show ?thesis by blast
  next
    case False
    with Cons.prems i have "same_exact dice char_element val items rs = Some r"
      by (auto split: if_splits)
    from Cons.IH [OF this] obtain el' c' where
      "(el', c') \<in> set items \<and> el' \<noteq> OMNI \<and> el' \<noteq> char_element \<and> val \<le> c'
          \<and> r = same_take el' (enumerate 0 dice) rs" by blast
    then have "(el', c') \<in> set (item # items) \<and> el' \<noteq> OMNI \<and> el' \<noteq> char_element \<and> val \<le> c'
          \<and> r = same_take el' (enumerate 0 dice) rs" by simp
    then show ?thesis by blast
  qed
qed

text \<open>What the first strategy of the \<^verbatim>\<open>SAME\<close> key does when it applies.\<close>

lemma same_take_exact:
  assumes l: "length used = length dice" and v: "1 \<le> val"
    and a: "val \<le> int (avail el (enumerate 0 dice) used)"
  shows "\<exists>new used'. same_take el (enumerate 0 dice) (val, dice_idx, used) = (0, dice_idx @ new, used')
           \<and> int (length new) = val \<and> distinct new
           \<and> (\<forall>i \<in> set new. i < length dice \<and> \<not> used ! i \<and> dice ! i = el)
           \<and> length used' = length dice
           \<and> (\<forall>i < length dice. used' ! i = (used ! i \<or> i \<in> set new))"
proof -
  let ?ps = "enumerate 0 dice"
  obtain r' di' u' where st: "same_take el ?ps (val, dice_idx, used) = (r', di', u')"
    by (cases "same_take el ?ps (val, dice_idx, used)") auto
  from same_take_enough [OF distinct_fst_enumerate v a, of dice_idx] st have r: "r' = 0" by simp
  from same_take_length [OF st] r have len: "int (length di') = int (length dice_idx) + val" by simp
  from l enumerate_bound have "\<forall>p \<in> set ?ps. fst p < length used" by simp
  from same_take_takes [OF this, of el dice_idx val] st obtain new where
    t: "takes ?ps (\<lambda>d. d = el) (dice_idx, used) (di', u') new" by auto
  then have f: "di' = dice_idx @ new" and dn: "distinct new"
    and nw: "\<forall>i \<in> set new. \<not> used ! i \<and> (\<exists>d. (i, d) \<in> set ?ps \<and> d = el)"
    and l': "length u' = length used"
    and u: "\<forall>i < length used. u' ! i = (used ! i \<or> i \<in> set new)"
    by (simp_all add: takes_def)
  from nw have "\<forall>i \<in> set new. i < length dice \<and> \<not> used ! i \<and> dice ! i = el"
    by (auto simp: in_set_enumerate_eq)
  moreover from len f have "int (length new) = val" by simp
  ultimately show ?thesis using st r f dn l l' u by auto
qed

lemma same_with_omni_result:
  assumes l: "length used = length dice"
    and oc: "omni_count = int (avail OMNI (enumerate 0 dice) used)"
    and it: "\<forall>(el, c) \<in> set items. c = int (avail el (enumerate 0 dice) used)
               \<and> (el = OMNI \<or> el = char_element \<or> c < val)"
    and w: "same_with_omni dice char_element val omni_count items (dice_idx, used) = (sat, dice_idx', used')"
  shows "(sat \<longrightarrow> int (length dice_idx') = int (length dice_idx) + val)
       \<and> (\<not> sat \<longrightarrow> dice_idx' = dice_idx \<and> used' = used)"
  using it w
proof (induction items)
  case Nil
  then show ?case by simp
next
  case (Cons item items)
  obtain el c where i: "item = (el, c)" by (cases item)
  from Cons.prems(1) i have c: "c = int (avail el (enumerate 0 dice) used)"
    and lt: "el = OMNI \<or> el = char_element \<or> c < val"
    and rest: "\<forall>(el, c) \<in> set items. c = int (avail el (enumerate 0 dice) used)
               \<and> (el = OMNI \<or> el = char_element \<or> c < val)" by auto
  show ?case
  proof (cases "el = OMNI \<or> el = char_element")
    case True
    with Cons.prems(2) i have
      "same_with_omni dice char_element val omni_count items (dice_idx, used) = (sat, dice_idx', used')"
      by auto
    from Cons.IH [OF rest this] show ?thesis .
  next
    case False
    with lt have cv: "c < val" by simp
    show ?thesis
    proof (cases "omni_count + c \<ge> val")
      case ge: True
      obtain o' m' di1 u1 where f: "omni_fill el (enumerate 0 dice) (c, val - c, dice_idx, used) = (o', m', di1, u1)"
        by (cases "omni_fill el (enumerate 0 dice) (c, val - c, dice_idx, used)") auto
      from False have "el \<noteq> OMNI" by simp
      from omni_fill_counts [OF distinct_fst_enumerate this f] c oc cv ge
      have z: "o' = 0" "m' = 0" by auto
      from omni_fill_length [OF f] z have "int (length di1) = int (length dice_idx) + val" by simp
      moreover from Cons.prems(2) i False ge f z have "sat" "dice_idx' = di1" by auto
      ultimately show ?thesis by simp
    next
      case False
      with \<open>\<not> (el = OMNI \<or> el = char_element)\<close> Cons.prems(2) i show ?thesis by auto
    qed
  qed
qed

lemma same_key_length:
  assumes l: "length used = length dice" and v: "1 \<le> val"
    and k: "same_key dice char_element val (dice_idx, used) = Some (dice_idx', used')"
  shows "int (length dice_idx') = int (length dice_idx) + val"
proof -
  let ?ps = "enumerate 0 dice"
  define dc where "dc = dice_counter_of dice char_element used"
  define oc where "oc = counter_get (sorted_asc dc) OMNI"
  define cc where "cc = counter_get dc char_element"
  have items: "c = int (avail el ?ps used)" if "(el, c) \<in> set dc" for el c
    using dice_counter_item [OF l] that unfolding dc_def by blast
  have oc': "oc = int (avail OMNI ?ps used)"
    unfolding oc_def sorted_asc_def dc_def
    by (simp add: sort_key_counter_get dice_counter_distinct dice_counter_get [OF l])
  show ?thesis
  proof (cases "same_exact dice char_element val (sorted_asc dc) (val, dice_idx, used)")
    case (Some r)
    from same_exact_Some [OF Some] obtain el c where
      m: "(el, c) \<in> set (sorted_asc dc)" and vc: "val \<le> c"
      and r: "r = same_take el ?ps (val, dice_idx, used)" by blast
    from m items have "c = int (avail el ?ps used)" by (simp add: sorted_asc_def)
    with vc have "val \<le> int (avail el ?ps used)" by simp
    from same_take_exact [OF l v this, of dice_idx] r obtain new u1 where
      r': "r = (0, dice_idx @ new, u1)" and n: "int (length new) = val" by auto
    from k Some r' have "dice_idx' = dice_idx @ new"
      by (simp add: same_key_def Let_def dc_def dice_counter_of_def)
    with n show ?thesis by simp
  next
    case None
    then have small: "\<forall>(el, c) \<in> set (sorted_asc dc). el = OMNI \<or> el = char_element \<or> c < val"
      by (simp add: same_exact_None)
    obtain sat di1 u1 where
      w: "same_with_omni dice char_element val oc (sorted_desc dc) (dice_idx, used) = (sat, di1, u1)"
      by (cases "same_with_omni dice char_element val oc (sorted_desc dc) (dice_idx, used)") auto
    have "\<forall>(el, c) \<in> set (sorted_desc dc). c = int (avail el ?ps used)
               \<and> (el = OMNI \<or> el = char_element \<or> c < val)"
      using small items by (auto simp: sorted_asc_def sorted_desc_def)
    from same_with_omni_result [OF l oc' this w]
    have s1: "sat \<longrightarrow> int (length di1) = int (length dice_idx) + val"
      and s2: "\<not> sat \<longrightarrow> di1 = dice_idx \<and> u1 = used" by simp_all
    show ?thesis
    proof (cases sat)
      case True
      with k None w have "dice_idx' = di1"
        by (simp add: same_key_def Let_def dc_def oc_def dice_counter_of_def)
      with s1 True show ?thesis by simp
    next
      case False
      with k None w s2 have
        "char_fill char_element ?ps (min cc val, val - min cc val, dice_idx, used)
           = (True, dice_idx', used')"
        by (auto simp: same_key_def Let_def dc_def oc_def cc_def dice_counter_of_def
            split: if_splits prod.splits bool.splits)
      from char_fill_length [OF this] show ?thesis by simp
    qed
  qed
qed

section \<open>The size of a selection\<close>

lemma scan_take_step:
  assumes "scan_take want ps (remaining, s) = (remaining', s')"
  shows "int (length (fst s')) = int (length (fst s)) + (remaining - remaining')
        \<and> (1 \<le> remaining \<longrightarrow> 0 \<le> remaining')"
proof -
  obtain di u di' u' where "s = (di, u)" "s' = (di', u')" by (cases s, cases s')
  with assms scan_take_length [of want ps remaining di u remaining' di' u'] show ?thesis by simp
qed

lemma scan_more_step:
  assumes "scan_more want ps (remaining, s) = (remaining', s')"
  shows "int (length (fst s')) = int (length (fst s)) + (remaining - remaining')
        \<and> (0 \<le> remaining \<longrightarrow> 0 \<le> remaining')"
proof -
  obtain di u di' u' where "s = (di, u)" "s' = (di', u')" by (cases s, cases s')
  with assms scan_more_length [of want ps remaining di u remaining' di' u'] show ?thesis by simp
qed

lemma major_key_length:
  assumes "1 \<le> val"
    and "scan_more w2 ps (scan_take w1 ps (val, s)) = (remaining, s')"
    and "\<not> remaining > 0"
  shows "int (length (fst s')) = int (length (fst s)) + val"
proof -
  obtain r1 s1 where a: "scan_take w1 ps (val, s) = (r1, s1)" by (cases "scan_take w1 ps (val, s)")
  from scan_take_step [OF a] assms(1)
  have l1: "int (length (fst s1)) = int (length (fst s)) + (val - r1)" and p1: "0 \<le> r1" by simp_all
  from assms(2) a have b: "scan_more w2 ps (r1, s1) = (remaining, s')" by simp
  from scan_more_step [OF b] p1
  have l2: "int (length (fst s')) = int (length (fst s1)) + (r1 - remaining)" and p2: "0 \<le> remaining"
    by simp_all
  from p2 assms(3) have "remaining = 0" by simp
  with l1 l2 show ?thesis by simp
qed

lemma any_key_length:
  assumes "1 \<le> val"
    and "scan_more w3 ps (scan_more w2 ps (scan_take w1 ps (val, s))) = (remaining, s')"
    and "\<not> remaining > 0"
  shows "int (length (fst s')) = int (length (fst s)) + val"
proof -
  obtain r1 s1 where a: "scan_take w1 ps (val, s) = (r1, s1)" by (cases "scan_take w1 ps (val, s)")
  from scan_take_step [OF a] assms(1)
  have l1: "int (length (fst s1)) = int (length (fst s)) + (val - r1)" and p1: "0 \<le> r1" by simp_all
  obtain r2 s2 where b: "scan_more w2 ps (r1, s1) = (r2, s2)" by (cases "scan_more w2 ps (r1, s1)")
  from scan_more_step [OF b] p1
  have l2: "int (length (fst s2)) = int (length (fst s1)) + (r1 - r2)" and p2: "0 \<le> r2" by simp_all
  from assms(2) a b have c: "scan_more w3 ps (r2, s2) = (remaining, s')" by simp
  from scan_more_step [OF c] p2
  have l3: "int (length (fst s')) = int (length (fst s2)) + (r2 - remaining)" and p3: "0 \<le> remaining"
    by simp_all
  from p3 assms(3) have "remaining = 0" by simp
  with l1 l2 l3 show ?thesis by simp
qed

lemma required_dice_Cons:
  "required_dice ((key, val) # cost) = (if key = POWER then 0 else val) + required_dice cost"
  by (simp add: required_dice_def)

lemma greedy_keys_length:
  "sel_ok (length dice) s
    \<Longrightarrow> \<forall>(key, val) \<in> set cost. cost_key key \<and> (key \<noteq> POWER \<longrightarrow> 1 \<le> val)
    \<Longrightarrow> greedy_keys dice char_element cost s = Some s'
    \<Longrightarrow> int (length (fst s')) = int (length (fst s)) + required_dice cost"
proof (induction cost arbitrary: s)
  case Nil
  then show ?case by (simp add: required_dice_def)
next
  case (Cons kv cost)
  obtain key val where kv: "kv = (key, val)" by (cases kv)
  from Cons.prems(2) kv have ck: "cost_key key" and pos: "key \<noteq> POWER \<longrightarrow> 1 \<le> val"
    and rest: "\<forall>(key, val) \<in> set cost. cost_key key \<and> (key \<noteq> POWER \<longrightarrow> 1 \<le> val)" by auto
  consider (major) "1 \<le> elem_value key \<and> elem_value key \<le> 7"
    | (any) "\<not> (1 \<le> elem_value key \<and> elem_value key \<le> 7)" "key = ANY"
    | (same) "\<not> (1 \<le> elem_value key \<and> elem_value key \<le> 7)" "key \<noteq> ANY" "key = SAME"
    | (power) "\<not> (1 \<le> elem_value key \<and> elem_value key \<le> 7)" "key = POWER"
    using ck by (auto simp: cost_key_def)
  then show ?case
  proof cases
    case major
    then have np: "key \<noteq> POWER" by auto
    with pos have v: "1 \<le> val" by simp
    define r where "r = scan_more (\<lambda>die. die = OMNI) (enumerate 0 dice)
                (scan_take (\<lambda>die. die = key) (enumerate 0 dice) (val, s))"
    have ok: "sel_ok (length dice) (snd r)"
      unfolding r_def by (intro scan_more_sel_ok scan_take_sel_ok Cons.prems(1))
    from Cons.prems(3) kv major have g: "greedy_keys dice char_element cost (snd r) = Some s'"
      and nf: "\<not> fst r > 0"
      by (auto simp: r_def split: prod.splits if_splits)
    have "r = (fst r, snd r)" by simp
    from major_key_length [OF v this [unfolded r_def] nf [unfolded r_def]]
    have "int (length (fst (snd r))) = int (length (fst s)) + val" by (simp add: r_def)
    with Cons.IH [OF ok rest g] kv np show ?thesis by (simp add: required_dice_Cons)
  next
    case any
    then have np: "key \<noteq> POWER" by auto
    with pos have v: "1 \<le> val" by simp
    define r where "r = scan_more (\<lambda>die. die = OMNI) (enumerate 0 dice)
                (scan_more (\<lambda>die. die = char_element) (enumerate 0 dice)
                   (scan_take (\<lambda>die. die \<noteq> char_element) (enumerate 0 dice) (val, s)))"
    have ok: "sel_ok (length dice) (snd r)"
      unfolding r_def by (intro scan_more_sel_ok scan_take_sel_ok Cons.prems(1))
    from Cons.prems(3) kv any have g: "greedy_keys dice char_element cost (snd r) = Some s'"
      and nf: "\<not> fst r > 0"
      by (auto simp: r_def split: prod.splits if_splits)
    have "r = (fst r, snd r)" by simp
    from any_key_length [OF v this [unfolded r_def] nf [unfolded r_def]]
    have "int (length (fst (snd r))) = int (length (fst s)) + val" by (simp add: r_def)
    with Cons.IH [OF ok rest g] kv np show ?thesis by (simp add: required_dice_Cons)
  next
    case same
    then have np: "key \<noteq> POWER" by auto
    with pos have v: "1 \<le> val" by simp
    from same Cons.prems(3) kv obtain s1 where k: "same_key dice char_element val s = Some s1"
      and g: "greedy_keys dice char_element cost s1 = Some s'"
      by (auto split: option.splits)
    obtain di u di1 u1 where s: "s = (di, u)" and s1: "s1 = (di1, u1)" by (cases s, cases s1)
    from Cons.prems(1) s have l: "length u = length dice" by (simp add: sel_ok_def)
    from same_key_length [OF l v k [unfolded s s1]] s s1
    have "int (length (fst s1)) = int (length (fst s)) + val" by simp
    with Cons.IH [OF same_key_sel_ok [OF Cons.prems(1) k] rest g] kv np show ?thesis
      by (simp add: required_dice_Cons)
  next
    case power
    with Cons.prems(3) kv have "greedy_keys dice char_element cost s = Some s'" by simp
    from Cons.IH [OF Cons.prems(1) rest this] kv power show ?thesis
      by (simp add: required_dice_Cons)
  qed
qed

section \<open>The calls of the attack policy\<close>

lemma greedy_keys_skips_power:
  "greedy_keys dice char_element (filter (\<lambda>(key, val). key \<noteq> POWER) cost) s
     = greedy_keys dice char_element cost s"
proof (induction cost arbitrary: s)
  case Nil
  show ?case by simp
next
  case (Cons kv cost)
  obtain key val where kv: "kv = (key, val)" by (cases kv)
  show ?case
  proof (cases "key = POWER")
    case True
    with kv Cons.IH show ?thesis by simp
  next
    case False
    with kv Cons.IH show ?thesis by (simp split: prod.splits option.splits)
  qed
qed

lemma calls_snoc:
  "\<forall>call \<in> set calls. call_checked character_card character_info call
    \<Longrightarrow> call_checked character_card character_info c
    \<Longrightarrow> \<forall>call \<in> set (calls @ [c]). call_checked character_card character_info call"
  by simp

lemma card_attempt_calls:
  assumes "card_attempt site card_name card_cost entity player_id player_info char_element calls = (r, calls')"
    and "\<forall>call \<in> set calls. call_checked character_card character_info call"
    and "call_checked character_card character_info (site, card_cost)"
  shows "\<forall>call \<in> set calls'. call_checked character_card character_info call"
proof -
  from assms(1) have "calls' = calls \<or> calls' = calls @ [(site, card_cost)]"
    by (auto simp: card_attempt_def Let_def split: if_splits)
  with assms(2) calls_snoc [OF assms(2,3)] show ?thesis by blast
qed

lemma skill_attempt_calls:
  assumes "skill_attempt site (get_skill character_card ty) player_info char_element (choice, calls)
             = (r, calls')"
    and "\<forall>call \<in> set calls. call_checked character_card character_info call"
    and "(site = ElementalSkill \<and> ty = ELEMENTAL_SKILL) \<or> (site = NormalAttack \<and> ty = NORMAL_ATTACK)"
  shows "\<forall>call \<in> set calls'. call_checked character_card character_info call"
proof -
  from assms(1) have "calls' = calls
      \<or> (\<exists>sk. get_skill character_card ty = Some sk \<and> calls' = calls @ [(site, costs sk)])"
    by (cases choice) (auto simp: skill_attempt_def Let_def split: if_splits option.splits)
  then show ?thesis
  proof
    assume "calls' = calls"
    with assms(2) show ?thesis by simp
  next
    assume "\<exists>sk. get_skill character_card ty = Some sk \<and> calls' = calls @ [(site, costs sk)]"
    then obtain sk where g: "get_skill character_card ty = Some sk"
      and e: "calls' = calls @ [(site, costs sk)]" by blast
    from g assms(3) have "call_checked character_card character_info (site, costs sk)"
      by (auto simp: call_checked_def)
    from calls_snoc [OF assms(2) this] e show ?thesis by simp
  qed
qed

lemma burst_attempt_calls:
  assumes "burst_attempt (get_skill character_card ELEMENTAL_BURST) character_info player_info
             char_element calls = (r, calls')"
    and "\<forall>call \<in> set calls. call_checked character_card character_info call"
  shows "\<forall>call \<in> set calls'. call_checked character_card character_info call"
proof -
  from assms(1) have "calls' = calls
      \<or> (\<exists>burst. get_skill character_card ELEMENTAL_BURST = Some burst
            \<and> calls' = calls @ [(ElementalBurst, costs burst)]
            \<and> map_of (costs burst) POWER = Some (stored_power (character character_info)))"
    by (auto simp: burst_attempt_def Let_def split: if_splits option.splits)
  then show ?thesis
  proof
    assume "calls' = calls"
    with assms(2) show ?thesis by simp
  next
    assume "\<exists>burst. get_skill character_card ELEMENTAL_BURST = Some burst
            \<and> calls' = calls @ [(ElementalBurst, costs burst)]
            \<and> map_of (costs burst) POWER = Some (stored_power (character character_info))"
    then obtain burst where g: "get_skill character_card ELEMENTAL_BURST = Some burst"
      and e: "calls' = calls @ [(ElementalBurst, costs burst)]"
      and m: "map_of (costs burst) POWER = Some (stored_power (character character_info))" by blast
    from g m have "call_checked character_card character_info (ElementalBurst, costs burst)"
      by (simp add: call_checked_def)
    from calls_snoc [OF assms(2) this] e show ?thesis by simp
  qed
qed

lemma use_skills_calls:
  assumes "\<forall>call \<in> set calls. call_checked character_card character_info call"
  shows "\<forall>call \<in> set (snd (use_skills character_card player_id game_info character_info calls)).
           call_checked character_card character_info call"
proof -
  let ?pi = "get_player_info game_info"
  let ?el = "element_type character_card"
  obtain r1 c1 where b: "burst_attempt (get_skill character_card ELEMENTAL_BURST) character_info ?pi ?el calls = (r1, c1)"
    by (cases "burst_attempt (get_skill character_card ELEMENTAL_BURST) character_info ?pi ?el calls")
  from burst_attempt_calls [OF b assms]
  have k1: "\<forall>call \<in> set c1. call_checked character_card character_info call" .
  show ?thesis
  proof (cases r1)
    case (Inl e)
    with b k1 show ?thesis by (simp add: use_skills_def Let_def)
  next
    case (Inr choice1)
    obtain r2 c2 where s2: "skill_attempt ElementalSkill (get_skill character_card ELEMENTAL_SKILL) ?pi ?el (choice1, c1) = (r2, c2)"
      by (cases "skill_attempt ElementalSkill (get_skill character_card ELEMENTAL_SKILL) ?pi ?el (choice1, c1)")
    from skill_attempt_calls [OF s2 k1]
    have k2: "\<forall>call \<in> set c2. call_checked character_card character_info call" by simp
    show ?thesis
    proof (cases r2)
      case (Inl e)
      with b \<open>r1 = Inr choice1\<close> s2 k2 show ?thesis by (simp add: use_skills_def Let_def)
    next
      case (Inr choice2)
      obtain r3 c3 where s3: "skill_attempt NormalAttack (get_skill character_card NORMAL_ATTACK) ?pi ?el (choice2, c2) = (r3, c3)"
        by (cases "skill_attempt NormalAttack (get_skill character_card NORMAL_ATTACK) ?pi ?el (choice2, c2)")
      from skill_attempt_calls [OF s3 k2]
      have k3: "\<forall>call \<in> set c3. call_checked character_card character_info call" by simp
      from b \<open>r1 = Inr choice1\<close> s2 Inr s3 k3 show ?thesis
        by (cases r3) (auto simp: use_skills_def Let_def split: prod.splits)
    qed
  qed
qed

lemma take_action_on_play_cards_calls:
  assumes "py_index (characters (get_player_info game_info))
             (pos_value (active_character_position (get_player_info game_info))) = Inr character_info"
  shows "\<forall>call \<in> set (snd (take_action_on_play_cards get_character_card player_id game_info)).
           call_checked (get_character_card (name (character character_info))) character_info call"
proof -
  let ?pi = "get_player_info game_info"
  let ?card = "get_character_card (name (character character_info))"
  let ?el = "element_type ?card"
  obtain a1 c1 where t1: "card_attempt KantenSenmyouBlessing ''Kanten Senmyou Blessing''
                           [(CRYO, 2)] CHARACTER player_id ?pi ?el [] = (a1, c1)"
    by (cases "card_attempt KantenSenmyouBlessing ''Kanten Senmyou Blessing''
                           [(CRYO, 2)] CHARACTER player_id ?pi ?el []")
  from card_attempt_calls [OF t1, of ?card character_info]
  have k1: "\<forall>call \<in> set c1. call_checked ?card character_info call"
    by (simp add: call_checked_def)
  obtain a2 c2 where t2: "card_attempt TravelersHandySword (''Traveler'' @ [CHR 0x27] @ ''s Handy Sword'')
                           [(SAME, 2)] WEAPON player_id ?pi ?el c1 = (a2, c2)"
    by (cases "card_attempt TravelersHandySword (''Traveler'' @ [CHR 0x27] @ ''s Handy Sword'')
                           [(SAME, 2)] WEAPON player_id ?pi ?el c1")
  from card_attempt_calls [OF t2 k1] have k2: "\<forall>call \<in> set c2. call_checked ?card character_info call"
    by (simp add: call_checked_def)
  obtain a3 c3 where t3: "card_attempt SacrificialSword ''Sacrificial Sword''
                           [(SAME, 3)] WEAPON player_id ?pi ?el c2 = (a3, c3)"
    by (cases "card_attempt SacrificialSword ''Sacrificial Sword''
                           [(SAME, 3)] WEAPON player_id ?pi ?el c2")
  from card_attempt_calls [OF t3 k2] have k3: "\<forall>call \<in> set c3. call_checked ?card character_info call"
    by (simp add: call_checked_def)
  from use_skills_calls [OF k3] have k4:
    "\<forall>call \<in> set (snd (use_skills ?card player_id game_info character_info c3)).
           call_checked ?card character_info call" .
  from assms t1 t2 t3 k1 k2 k3 k4 show ?thesis
    unfolding take_action_on_play_cards_def Let_def
    by (simp split: list.splits option.splits)
qed

lemma no_power_stored_run:
  "take_action_on_play_cards (\<lambda>n. power_skill_card) PLAYER1 no_power_stored
     = (Inr (UseSkillAction (CharPos 0) ''Skill'' [0] [(PLAYER2, CharPos 0)]),
        [(ElementalSkill, [(CRYO, 1), (POWER, 2)])])"
  by code_simp

lemma burst_ready_run:
  "take_action_on_play_cards (\<lambda>n. example_card) PLAYER1 burst_ready
     = (Inr (UseSkillAction (CharPos 0) ''Burst'' [0, 2, 3] [(PLAYER2, CharPos 0)]),
        [(ElementalBurst, [(CRYO, 3), (POWER, 3)])])"
  by code_simp

lemma card_attempt_action:
  "card_attempt site card_name card_cost entity player_id player_info char_element calls = (Some a, calls')
    \<Longrightarrow> \<exists>i t d p. a = UseCardAction i t d p \<and> d \<noteq> []"
  by (auto simp: card_attempt_def Let_def split: if_splits)

lemma use_skills_action:
  "fst (use_skills character_card player_id game_info character_info calls) = Inr a
    \<Longrightarrow> a = DeclareEndAction \<or> (\<exists>p n d t. a = UseSkillAction p n d t \<and> d \<noteq> [])"
  by (auto simp: use_skills_def Let_def split: prod.splits sum.splits if_splits)

lemma take_action_on_play_cards_action:
  assumes "fst (take_action_on_play_cards get_character_card player_id game_info) = Inr a"
  shows "a = DeclareEndAction \<or> (\<exists>p. a = ChangeCharacterAction p [])
       \<or> (\<exists>i t d p. a = UseCardAction i t d p \<and> d \<noteq> [])
       \<or> (\<exists>p n d t. a = UseSkillAction p n d t \<and> d \<noteq> [])"
proof -
  let ?pi = "get_player_info game_info"
  show ?thesis
  proof (cases "py_index (characters ?pi) (pos_value (active_character_position ?pi))")
    case (Inl e)
    with assms show ?thesis by (simp add: take_action_on_play_cards_def Let_def)
  next
    case (Inr character_info)
    let ?card = "get_character_card (name (character character_info))"
    let ?el = "element_type ?card"
    show ?thesis
    proof (cases "health_point (character character_info) \<le> 0")
      case True
      with assms Inr show ?thesis
        by (auto simp: take_action_on_play_cards_def Let_def split: list.splits)
    next
      case False
      obtain a1 c1 where t1: "card_attempt KantenSenmyouBlessing ''Kanten Senmyou Blessing''
                           [(CRYO, 2)] CHARACTER player_id ?pi ?el [] = (a1, c1)"
        by (cases "card_attempt KantenSenmyouBlessing ''Kanten Senmyou Blessing''
                           [(CRYO, 2)] CHARACTER player_id ?pi ?el []")
      obtain a2 c2 where t2: "card_attempt TravelersHandySword (''Traveler'' @ [CHR 0x27] @ ''s Handy Sword'')
                           [(SAME, 2)] WEAPON player_id ?pi ?el c1 = (a2, c2)"
        by (cases "card_attempt TravelersHandySword (''Traveler'' @ [CHR 0x27] @ ''s Handy Sword'')
                           [(SAME, 2)] WEAPON player_id ?pi ?el c1")
      obtain a3 c3 where t3: "card_attempt SacrificialSword ''Sacrificial Sword''
                           [(SAME, 3)] WEAPON player_id ?pi ?el c2 = (a3, c3)"
        by (cases "card_attempt SacrificialSword ''Sacrificial Sword''
                           [(SAME, 3)] WEAPON player_id ?pi ?el c2")
      from assms Inr False t1 t2 t3
      have "a1 = Some a \<or> a2 = Some a \<or> a3 = Some a
          \<or> fst (use_skills ?card player_id game_info character_info c3) = Inr a"
        unfolding take_action_on_play_cards_def Let_def
        by (simp split: option.splits)
      with t1 t2 t3 card_attempt_action use_skills_action show ?thesis by metis
    qed
  qed
qed

lemma greedy_select_only_power:
  assumes "\<forall>(key, val) \<in> set cost. key = POWER"
  shows "greedy_select dice cost char_element = Some []"
proof -
  from assms have "filter (\<lambda>(key, val). key \<noteq> POWER) cost = []"
    by (auto simp: filter_empty_conv)
  with greedy_keys_skips_power [of dice char_element cost "([], replicate (length dice) False)"]
  have "greedy_keys dice char_element cost ([], replicate (length dice) False)
          = Some ([], replicate (length dice) False)" by simp
  then show ?thesis by (simp add: greedy_select_def)
qed

section \<open>The claims about the matcher\<close>

text \<open>
  Claim C1, amended. For a cost specification whose keys are cost keys of the data model
  (a major element, \<^verbatim>\<open>POWER\<close>, \<^verbatim>\<open>ANY\<close> or \<^verbatim>\<open>SAME\<close>) and whose counts for the keys other
  than \<^verbatim>\<open>POWER\<close> are at least 1: if the matcher completes all keys (the loop is not left
  by \<^verbatim>\<open>return []\<close>), the number of returned indices is the sum of the required counts
  of all keys but \<^verbatim>\<open>POWER\<close>.
\<close>

theorem greedy_select_size:
  assumes "\<forall>(key, val) \<in> set cost. cost_key key \<and> (key \<noteq> POWER \<longrightarrow> 1 \<le> val)"
    and "greedy_select dice cost char_element = Some dice_idx"
  shows "get_dice_idx_greedy dice cost char_element = dice_idx
       \<and> int (length dice_idx) = required_dice cost"
proof -
  from assms(2) obtain s' where
    g: "greedy_keys dice char_element cost ([], replicate (length dice) False) = Some s'"
    and d: "dice_idx = fst s'" by (auto simp: greedy_select_def)
  from greedy_keys_length [OF sel_ok_init assms(1) g] d
  have "int (length dice_idx) = required_dice cost" by simp
  with assms(2) show ?thesis by (simp add: get_dice_idx_greedy_def)
qed

theorem greedy_select_size_witness:
  "greedy_select [PYRO, OMNI, HYDRO, CRYO, OMNI] [(SAME, 3), (POWER, 2), (CRYO, 1), (ANY, 1)] CRYO
     = Some [0, 1, 4, 3, 2]
   \<and> get_dice_idx_greedy [PYRO, OMNI, HYDRO, CRYO, OMNI] [(SAME, 3), (POWER, 2), (CRYO, 1), (ANY, 1)] CRYO
     = [0, 1, 4, 3, 2]
   \<and> int (length [0, 1, 4, 3, 2 :: nat]) = required_dice [(SAME, 3), (POWER, 2), (CRYO, 1), (ANY, 1)]"
proof -
  have k: "\<forall>(key, val) \<in> set [(SAME, 3), (POWER, 2), (CRYO, 1), (ANY, 1 :: int)].
             cost_key key \<and> (key \<noteq> POWER \<longrightarrow> 1 \<le> val)"
    by (simp add: cost_key_def)
  have g: "greedy_select [PYRO, OMNI, HYDRO, CRYO, OMNI] [(SAME, 3), (POWER, 2), (CRYO, 1), (ANY, 1)] CRYO
     = Some [0, 1, 4, 3, 2]"
    by code_simp
  from greedy_select_size [OF k g] g show ?thesis by simp
qed

text \<open>
  Claim C1 as stated, for every cost specification, fails for a count of zero: the scan
  leaves only when \<^verbatim>\<open>remaining\<close> is exactly 0 after a die was taken, so with
  \<^verbatim>\<open>{CRYO: 0}\<close> and one Cryo die the matcher completes and returns one index. It also
  fails for a key outside the data model: \<^verbatim>\<open>{OMNI: 1}\<close> matches no branch, and the
  matcher completes with no index.
\<close>

theorem greedy_select_size_counterexample:
  "greedy_select [CRYO] [(CRYO, 0)] PYRO = Some [0]
   \<and> int (length (get_dice_idx_greedy [CRYO] [(CRYO, 0)] PYRO)) \<noteq> required_dice [(CRYO, 0)]
   \<and> greedy_select [CRYO] [(OMNI, 1)] PYRO = Some []
   \<and> int (length (get_dice_idx_greedy [CRYO] [(OMNI, 1)] PYRO)) \<noteq> required_dice [(OMNI, 1)]"
  by (simp add: get_dice_idx_greedy_def greedy_select_def scan_more_def required_dice_def)

text \<open>
  Claim C2. For every dice sequence, cost specification and character element, the
  indices returned by \<open>get_dice_idx_greedy\<close> are pairwise distinct and each is less than
  the number of dice.
\<close>

theorem get_dice_idx_greedy_indices:
  "distinct (get_dice_idx_greedy dice cost char_element)
   \<and> (\<forall>i \<in> set (get_dice_idx_greedy dice cost char_element). i < length dice)"
proof (cases "greedy_select dice cost char_element")
  case None
  then show ?thesis by (simp add: get_dice_idx_greedy_def)
next
  case (Some dice_idx)
  from greedy_select_ok [OF Some] Some show ?thesis by (simp add: get_dice_idx_greedy_def)
qed

theorem get_dice_idx_greedy_indices_witness:
  "get_dice_idx_greedy [PYRO, OMNI, HYDRO, CRYO, OMNI] [(SAME, 3), (CRYO, 1), (ANY, 1)] CRYO
     = [0, 1, 4, 3, 2]
   \<and> distinct (get_dice_idx_greedy [PYRO, OMNI, HYDRO, CRYO, OMNI] [(SAME, 3), (CRYO, 1), (ANY, 1)] CRYO)
   \<and> (4 :: nat) < length [PYRO, OMNI, HYDRO, CRYO, OMNI]"
proof -
  have g: "get_dice_idx_greedy [PYRO, OMNI, HYDRO, CRYO, OMNI] [(SAME, 3), (CRYO, 1), (ANY, 1)] CRYO
     = [0, 1, 4, 3, 2]"
    by code_simp
  from get_dice_idx_greedy_indices
    [of "[PYRO, OMNI, HYDRO, CRYO, OMNI]" "[(SAME, 3), (CRYO, 1), (ANY, 1)]" CRYO] g
  show ?thesis by simp
qed

text \<open>
  Claim C3. The first scan of the \<^verbatim>\<open>ANY\<close> key tests \<^verbatim>\<open>die != char_element\<close> only, so it
  takes \<^verbatim>\<open>OMNI\<close> dice in scan order together with the unaligned ones: for the dice
  \<^verbatim>\<open>[OMNI, PYRO]\<close>, the cost \<^verbatim>\<open>{ANY: 1}\<close> and a Cryo character the matcher returns the
  index of the \<^verbatim>\<open>OMNI\<close> die, although a Pyro die is there. The third scan (lines
  266-274), which is for the \<^verbatim>\<open>OMNI\<close> dice, then finds none left.
\<close>

theorem any_key_takes_omni_in_scan_order:
  "get_dice_idx_greedy [OMNI, PYRO] [(ANY, 1)] CRYO = [0]"
  by (simp add: get_dice_idx_greedy_def greedy_select_def scan_more_def)

text \<open>
  Claim C4. The \<^verbatim>\<open>SAME\<close> key with a count \<open>val\<close> of at least 1, in a state with one
  flag per die: if some element other than \<^verbatim>\<open>OMNI\<close> and the character's element occurs at
  least \<open>val\<close> times among the unused dice, the key succeeds and appends exactly \<open>val\<close>
  distinct indices of unused dice, all of one element \<open>chosen\<close> that is neither \<^verbatim>\<open>OMNI\<close>
  nor the character's element (so no \<^verbatim>\<open>OMNI\<close> die is taken), and marks exactly these as
  used. In particular, for the dice \<^verbatim>\<open>[PYRO, PYRO, OMNI, HYDRO]\<close>, the cost \<^verbatim>\<open>{SAME: 2}\<close> and
  a Cryo character the matcher returns the two Pyro indices.
\<close>

theorem same_key_exact_group:
  assumes l: "length used = length dice" and v: "1 \<le> val"
    and e: "element \<noteq> OMNI" "element \<noteq> char_element"
    and c: "val \<le> int (count_list (unused_dice dice used) element)"
  shows "(\<exists>chosen new used'.
            same_key dice char_element val (dice_idx, used) = Some (dice_idx @ new, used')
          \<and> int (length new) = val \<and> distinct new
          \<and> chosen \<noteq> OMNI \<and> chosen \<noteq> char_element
          \<and> (\<forall>i \<in> set new. i < length dice \<and> \<not> used ! i \<and> dice ! i = chosen)
          \<and> (\<forall>i < length dice. used' ! i = (used ! i \<or> i \<in> set new)))
       \<and> get_dice_idx_greedy [PYRO, PYRO, OMNI, HYDRO] [(SAME, 2)] CRYO = [0, 1]"
proof
  let ?ps = "enumerate 0 dice"
  define dc where "dc = dice_counter_of dice char_element used"
  from c l have a: "val \<le> int (avail element ?ps used)" by (simp add: unused_dice_count)
  with v have "0 < avail element ?ps used" by simp
  from dice_counter_has [OF l this, of char_element]
  have "(element, int (avail element ?ps used)) \<in> set (sorted_asc dc)"
    by (simp add: dc_def sorted_asc_def)
  with e a have "same_exact dice char_element val (sorted_asc dc) (val, dice_idx, used) \<noteq> None"
    unfolding same_exact_None by force
  then obtain r where r: "same_exact dice char_element val (sorted_asc dc) (val, dice_idx, used) = Some r"
    by blast
  from same_exact_Some [OF r] obtain chosen cnt where
    m: "(chosen, cnt) \<in> set (sorted_asc dc)" and ne: "chosen \<noteq> OMNI" "chosen \<noteq> char_element"
    and vc: "val \<le> cnt" and rt: "r = same_take chosen ?ps (val, dice_idx, used)" by blast
  from m dice_counter_item [OF l, of chosen cnt char_element]
  have "cnt = int (avail chosen ?ps used)" by (simp add: dc_def sorted_asc_def)
  with vc have "val \<le> int (avail chosen ?ps used)" by simp
  from same_take_exact [OF l v this, of dice_idx] rt obtain new used' where
    r': "r = (0, dice_idx @ new, used')" and n: "int (length new) = val" "distinct new"
    and w: "\<forall>i \<in> set new. i < length dice \<and> \<not> used ! i \<and> dice ! i = chosen"
    and u: "\<forall>i < length dice. used' ! i = (used ! i \<or> i \<in> set new)" by auto
  from r r' have "same_key dice char_element val (dice_idx, used) = Some (dice_idx @ new, used')"
    by (simp add: same_key_def Let_def dc_def dice_counter_of_def)
  with n ne w u show "\<exists>chosen new used'.
            same_key dice char_element val (dice_idx, used) = Some (dice_idx @ new, used')
          \<and> int (length new) = val \<and> distinct new
          \<and> chosen \<noteq> OMNI \<and> chosen \<noteq> char_element
          \<and> (\<forall>i \<in> set new. i < length dice \<and> \<not> used ! i \<and> dice ! i = chosen)
          \<and> (\<forall>i < length dice. used' ! i = (used ! i \<or> i \<in> set new))" by blast
next
  show "get_dice_idx_greedy [PYRO, PYRO, OMNI, HYDRO] [(SAME, 2)] CRYO = [0, 1]"
    by code_simp
qed

theorem same_key_exact_group_witness:
  "2 \<le> int (count_list (unused_dice [HYDRO, PYRO, OMNI, PYRO] [True, False, False, False]) PYRO)
   \<and> (\<exists>new used'.
        same_key [HYDRO, PYRO, OMNI, PYRO] CRYO 2 ([0], [True, False, False, False])
          = Some ([0] @ new, used')
      \<and> int (length new) = 2 \<and> distinct new)"
proof -
  have c: "2 \<le> int (count_list (unused_dice [HYDRO, PYRO, OMNI, PYRO] [True, False, False, False]) PYRO)"
    by (simp add: unused_dice_def)
  have "length [True, False, False, False] = length [HYDRO, PYRO, OMNI, PYRO]" by simp
  from same_key_exact_group [OF this _ _ _ c, of CRYO "[0]"] c
  show ?thesis by auto
qed

section \<open>The claims about the policies\<close>

text \<open>
  Claim C5, amended. The matcher is given \<^verbatim>\<open>POWER\<close> keys and never resolves one against
  dice: it passes over it, so its result is the one for the cost mapping without its
  \<^verbatim>\<open>POWER\<close> entries. In every run of the attack policy, for every invocation of the
  matcher: at the three hand-card call sites the cost passed is the card's fixed cost
  (\<^verbatim>\<open>{CRYO: 2}\<close>, \<^verbatim>\<open>{SAME: 2}\<close>, \<^verbatim>\<open>{SAME: 3}\<close>), with no \<^verbatim>\<open>POWER\<close> entry; at the three skill
  call sites the cost passed is the whole cost mapping of the active character's burst,
  elemental skill or normal attack; and for the burst this mapping has a \<^verbatim>\<open>POWER\<close> entry
  equal to the stored power of the active character (the caller has compared the two
  before the call). For the elemental skill and the normal attack the caller compares
  nothing.
\<close>

theorem power_key_passed_and_skipped:
  "get_dice_idx_greedy dice cost char_element
     = get_dice_idx_greedy dice (filter (\<lambda>(key, val). key \<noteq> POWER) cost) char_element
   \<and> (\<forall>character_info character_card.
         py_index (characters (get_player_info game_info))
           (pos_value (active_character_position (get_player_info game_info))) = Inr character_info
         \<and> character_card = get_character_card (name (character character_info))
         \<longrightarrow> (\<forall>(site, passed) \<in> set (snd (take_action_on_play_cards get_character_card player_id game_info)).
                (site = KantenSenmyouBlessing \<longrightarrow> passed = [(CRYO, 2)])
              \<and> (site = TravelersHandySword \<longrightarrow> passed = [(SAME, 2)])
              \<and> (site = SacrificialSword \<longrightarrow> passed = [(SAME, 3)])
              \<and> (site = ElementalBurst \<longrightarrow>
                   map_option costs (get_skill character_card ELEMENTAL_BURST) = Some passed
                   \<and> map_of passed POWER = Some (stored_power (character character_info)))
              \<and> (site = ElementalSkill \<longrightarrow>
                   map_option costs (get_skill character_card ELEMENTAL_SKILL) = Some passed)
              \<and> (site = NormalAttack \<longrightarrow>
                   map_option costs (get_skill character_card NORMAL_ATTACK) = Some passed)))"
proof (intro conjI allI impI)
  show "get_dice_idx_greedy dice cost char_element
     = get_dice_idx_greedy dice (filter (\<lambda>(key, val). key \<noteq> POWER) cost) char_element"
    by (simp add: get_dice_idx_greedy_def greedy_select_def greedy_keys_skips_power)
next
  fix character_info character_card
  assume a: "py_index (characters (get_player_info game_info))
           (pos_value (active_character_position (get_player_info game_info))) = Inr character_info
         \<and> character_card = get_character_card (name (character character_info))"
  then have i: "py_index (characters (get_player_info game_info))
           (pos_value (active_character_position (get_player_info game_info))) = Inr character_info"
    and cd: "character_card = get_character_card (name (character character_info))" by simp_all
  from take_action_on_play_cards_calls [OF i, of get_character_card player_id] cd
  have k: "\<forall>call \<in> set (snd (take_action_on_play_cards get_character_card player_id game_info)).
             call_checked character_card character_info call" by simp
  show "\<forall>(site, passed) \<in> set (snd (take_action_on_play_cards get_character_card player_id game_info)).
                (site = KantenSenmyouBlessing \<longrightarrow> passed = [(CRYO, 2)])
              \<and> (site = TravelersHandySword \<longrightarrow> passed = [(SAME, 2)])
              \<and> (site = SacrificialSword \<longrightarrow> passed = [(SAME, 3)])
              \<and> (site = ElementalBurst \<longrightarrow>
                   map_option costs (get_skill character_card ELEMENTAL_BURST) = Some passed
                   \<and> map_of passed POWER = Some (stored_power (character character_info)))
              \<and> (site = ElementalSkill \<longrightarrow>
                   map_option costs (get_skill character_card ELEMENTAL_SKILL) = Some passed)
              \<and> (site = NormalAttack \<longrightarrow>
                   map_option costs (get_skill character_card NORMAL_ATTACK) = Some passed)"
  proof
    fix call
    assume c: "call \<in> set (snd (take_action_on_play_cards get_character_card player_id game_info))"
    obtain site passed where e: "call = (site, passed)" by (cases call)
    from k c have "call_checked character_card character_info call" by blast
    with e show "case call of (site, passed) \<Rightarrow>
                (site = KantenSenmyouBlessing \<longrightarrow> passed = [(CRYO, 2)])
              \<and> (site = TravelersHandySword \<longrightarrow> passed = [(SAME, 2)])
              \<and> (site = SacrificialSword \<longrightarrow> passed = [(SAME, 3)])
              \<and> (site = ElementalBurst \<longrightarrow>
                   map_option costs (get_skill character_card ELEMENTAL_BURST) = Some passed
                   \<and> map_of passed POWER = Some (stored_power (character character_info)))
              \<and> (site = ElementalSkill \<longrightarrow>
                   map_option costs (get_skill character_card ELEMENTAL_SKILL) = Some passed)
              \<and> (site = NormalAttack \<longrightarrow>
                   map_option costs (get_skill character_card NORMAL_ATTACK) = Some passed)"
      by (cases site) (simp_all add: call_checked_def)
  qed
qed

theorem power_key_passed_and_skipped_witness:
  "snd (take_action_on_play_cards (\<lambda>n. example_card) PLAYER1 burst_ready)
     = [(ElementalBurst, [(CRYO, 3), (POWER, 3)])]
   \<and> map_option costs (get_skill example_card ELEMENTAL_BURST) = Some [(CRYO, 3), (POWER, 3)]
   \<and> map_of [(CRYO, 3), (POWER, 3)] POWER = Some (stored_power (character (example_character 10 True 3)))
   \<and> get_dice_idx_greedy [CRYO, PYRO, CRYO, CRYO] [(CRYO, 3), (POWER, 3)] CRYO
       = get_dice_idx_greedy [CRYO, PYRO, CRYO, CRYO] [(CRYO, 3)] CRYO"
proof -
  have i: "py_index (characters (get_player_info burst_ready))
           (pos_value (active_character_position (get_player_info burst_ready)))
         = Inr (example_character 10 True 3)"
    by (simp add: burst_ready_def example_defs py_index_def)
  from power_key_passed_and_skipped
    [of "[CRYO, PYRO, CRYO, CRYO]" "[(CRYO, 3), (POWER, 3)]" CRYO burst_ready "\<lambda>n. example_card" PLAYER1]
    i burst_ready_run
  show ?thesis by simp
qed

text \<open>
  Claim C5 as stated fails at two call sites. The policy passes the burst's whole cost
  mapping, \<^verbatim>\<open>POWER\<close> entry included, to the matcher. It also passes the elemental skill's
  whole cost mapping: for a card whose elemental skill has a \<^verbatim>\<open>POWER\<close> entry of 2 and a
  character with no stored power, the entry reaches the matcher unchecked and the skill
  is used.
\<close>

theorem power_key_counterexample:
  "(ElementalBurst, [(CRYO, 3), (POWER, 3)])
     \<in> set (snd (take_action_on_play_cards (\<lambda>n. example_card) PLAYER1 burst_ready))
   \<and> POWER \<in> fst ` set [(CRYO, 3), (POWER, 3 :: int)]
   \<and> (ElementalSkill, [(CRYO, 1), (POWER, 2)])
     \<in> set (snd (take_action_on_play_cards (\<lambda>n. power_skill_card) PLAYER1 no_power_stored))
   \<and> POWER \<in> fst ` set [(CRYO, 1), (POWER, 2 :: int)]
   \<and> stored_power (character (characters (get_player_info no_power_stored) ! 0)) \<noteq> 2
   \<and> fst (take_action_on_play_cards (\<lambda>n. power_skill_card) PLAYER1 no_power_stored)
       = Inr (UseSkillAction (CharPos 0) ''Skill'' [0] [(PLAYER2, CharPos 0)])"
proof -
  have "stored_power (character (characters (get_player_info no_power_stored) ! 0)) \<noteq> 2"
    by (simp add: example_defs)
  then show ?thesis by (simp add: burst_ready_run no_power_stored_run)
qed

text \<open>
  Claim C6. While the sequence started earlier still has an item to produce,
  \<open>take_action\<close> returns that item and keeps the rest, whatever the policy would derive
  for the snapshot (the policy is not consulted). With a policy that yields two actions
  for the snapshot \<open>g1\<close>, the first call returns the first action, the second call the
  second one (for any snapshot \<open>g2\<close>), and the third call, the sequence being exhausted,
  returns the first action of the sequence derived from the snapshot \<open>g3\<close> of that call.
\<close>

theorem take_action_cursor:
  assumes "take_multiple_actions g1 = Inr (yields [a1, a2])"
    and "take_multiple_actions g3 = Inr (yields (b # bs))"
  shows "(\<forall>a rest g. take_action take_multiple_actions (Some (Yield a rest)) g = (Inr a, Some rest))
       \<and> take_action take_multiple_actions None g1 = (Inr a1, Some (yields [a2]))
       \<and> take_action take_multiple_actions (Some (yields [a2])) g2 = (Inr a2, Some Done)
       \<and> take_action take_multiple_actions (Some Done) g3 = (Inr b, Some (yields bs))"
  using assms by (simp add: take_action_def)

theorem take_action_cursor_witness:
  "two_step_policy (example_game ROLL_DICE (example_player [] 0 [PYRO] []))
      = Inr (yields [RollDiceAction [0], DeclareEndAction])
   \<and> two_step_policy (example_game ROUND_END (example_player [] 0 [] []))
      = Inr (yields [ChangeCardsAction []])
   \<and> take_action two_step_policy None (example_game ROLL_DICE (example_player [] 0 [PYRO] []))
      = (Inr (RollDiceAction [0]), Some (yields [DeclareEndAction]))
   \<and> take_action two_step_policy (Some (yields [DeclareEndAction])) (example_game ROLL_DICE (example_player [] 0 [PYRO] []))
      = (Inr DeclareEndAction, Some Done)
   \<and> take_action two_step_policy (Some Done) (example_game ROUND_END (example_player [] 0 [] []))
      = (Inr (ChangeCardsAction []), Some (yields []))"
proof -
  have h1: "two_step_policy (example_game ROLL_DICE (example_player [] 0 [PYRO] []))
      = Inr (yields [RollDiceAction [0], DeclareEndAction])"
    by (simp add: two_step_policy_def example_game_def)
  have h3: "two_step_policy (example_game ROUND_END (example_player [] 0 [] []))
      = Inr (yields [ChangeCardsAction []])"
    by (simp add: two_step_policy_def example_game_def)
  from take_action_cursor [OF h1 h3] h1 h3 show ?thesis by blast
qed

text \<open>
  Claim C7. When a fresh sequence is derived (no sequence was started, or the started one
  is exhausted) and it yields no action, \<open>take_action\<close> raises \<^verbatim>\<open>NoActionAssigned\<close> for
  that snapshot; when the fresh sequence yields at least one action, the call returns
  the first one and keeps the rest.
\<close>

theorem no_action_assigned:
  assumes "current_iter = None \<or> current_iter = Some Done"
    and "take_multiple_actions game_info = Inr fresh"
  shows "(fresh = Done \<longrightarrow>
            fst (take_action take_multiple_actions current_iter game_info)
              = Inl (NoActionAssigned game_info))
       \<and> (\<forall>a rest. fresh = Yield a rest \<longrightarrow>
            take_action take_multiple_actions current_iter game_info = (Inr a, Some rest))"
  using assms by (auto simp: take_action_def)

theorem no_action_assigned_witness:
  "fst (take_action two_step_policy None (example_game PLAY_CARDS (example_player [] 0 [] [])))
     = Inl (NoActionAssigned (example_game PLAY_CARDS (example_player [] 0 [] [])))"
proof -
  have h: "two_step_policy (example_game PLAY_CARDS (example_player [] 0 [] [])) = Inr Done"
    by (simp add: two_step_policy_def example_game_def)
  from no_action_assigned
    [of None two_step_policy "example_game PLAY_CARDS (example_player [] 0 [] [])" Done] h
  show ?thesis by simp
qed

text \<open>
  Claim C8, amended. The single-action round-end default, for a snapshot whose active
  position \<open>k\<close> is a slot: if the active character's health is at most 0 and some slot
  has its alive flag set, the result is a switch, with no dice, to the first slot in slot
  order whose alive flag is set (the active slot itself, when its flag is still set and
  no earlier slot is alive), and not \<^verbatim>\<open>DeclareEnd\<close>; if the health is above 0 the result
  is \<^verbatim>\<open>DeclareEnd\<close>. In particular, when the health is at most 0 and the slots whose
  alive flag is set are exactly one slot \<open>j\<close> other than the active one, the result is
  the switch to \<open>j\<close> and not \<^verbatim>\<open>DeclareEnd\<close>.
\<close>

theorem round_end_default:
  assumes "cs = characters (get_player_info game_info)"
    and "active_character_position (get_player_info game_info) = CharPos k"
    and "k < length cs"
  shows "(health_point (character (cs ! k)) \<le> 0 \<and> (\<exists>c \<in> set cs. alive (character c)) \<longrightarrow>
            (\<exists>j. j < length cs \<and> alive (character (cs ! j))
                  \<and> (\<forall>i<j. \<not> alive (character (cs ! i)))
                  \<and> take_action_on_round_end game_info = Inr (ChangeCharacterAction (CharPos j) [])
                  \<and> take_action_on_round_end game_info \<noteq> Inr DeclareEndAction))
       \<and> (health_point (character (cs ! k)) \<le> 0 \<longrightarrow>
            (\<forall>j. j < length cs \<and> alive (character (cs ! j))
                  \<and> (\<forall>i<j. \<not> alive (character (cs ! i)))
               \<longrightarrow> take_action_on_round_end game_info = Inr (ChangeCharacterAction (CharPos j) [])))
       \<and> (\<not> health_point (character (cs ! k)) \<le> 0 \<longrightarrow>
            take_action_on_round_end game_info = Inr DeclareEndAction)
       \<and> (health_point (character (cs ! k)) \<le> 0 \<longrightarrow>
            (\<forall>j. j < length cs \<and> j \<noteq> k \<and> (\<forall>i<length cs. alive (character (cs ! i)) \<longleftrightarrow> i = j)
               \<longrightarrow> take_action_on_round_end game_info = Inr (ChangeCharacterAction (CharPos j) [])
                 \<and> take_action_on_round_end game_info \<noteq> Inr DeclareEndAction))"
proof -
  have first: "take_action_on_round_end game_info = Inr (ChangeCharacterAction (CharPos j) [])"
    if hp: "health_point (character (cs ! k)) \<le> 0" and j: "j < length cs"
      and a: "alive (character (cs ! j))" and m: "\<forall>i<j. \<not> alive (character (cs ! i))" for j
  proof -
    from alive_positions_first [of j "get_player_info game_info"] j a m assms(1)
    obtain rest where "alive_positions (get_player_info game_info) = CharPos j # rest" by auto
    with assms hp show ?thesis by (simp add: take_action_on_round_end_def py_index_def)
  qed
  have healthy: "take_action_on_round_end game_info = Inr DeclareEndAction"
    if "\<not> health_point (character (cs ! k)) \<le> 0"
    using that assms by (simp add: take_action_on_round_end_def py_index_def)
  have only: "take_action_on_round_end game_info = Inr (ChangeCharacterAction (CharPos j) [])"
    if hp: "health_point (character (cs ! k)) \<le> 0" and j: "j < length cs"
      and o: "\<forall>i<length cs. alive (character (cs ! i)) \<longleftrightarrow> i = j" for j
  proof (rule first [OF hp j])
    from o j show "alive (character (cs ! j))" by simp
    from o j show "\<forall>i<j. \<not> alive (character (cs ! i))" by auto
  qed
  have never: "take_action_on_round_end game_info \<noteq> Inr DeclareEndAction"
    if "take_action_on_round_end game_info = Inr (ChangeCharacterAction (CharPos j) [])" for j
    using that by simp
  have some: "\<exists>j. j < length cs \<and> alive (character (cs ! j))
                  \<and> (\<forall>i<j. \<not> alive (character (cs ! i)))
                  \<and> take_action_on_round_end game_info = Inr (ChangeCharacterAction (CharPos j) [])
                  \<and> take_action_on_round_end game_info \<noteq> Inr DeclareEndAction"
    if hp: "health_point (character (cs ! k)) \<le> 0" and ex: "\<exists>c \<in> set cs. alive (character c)"
  proof -
    from ex assms(1) alive_positions_least [of "get_player_info game_info"]
    obtain j where j: "j < length cs" "alive (character (cs ! j))"
      "\<forall>i<j. \<not> alive (character (cs ! i))" by auto
    from first [OF hp j]
    have r: "take_action_on_round_end game_info = Inr (ChangeCharacterAction (CharPos j) [])" .
    from j r never [OF r] show ?thesis by blast
  qed
  show ?thesis
  proof (intro conjI impI allI)
    assume "health_point (character (cs ! k)) \<le> 0 \<and> (\<exists>c \<in> set cs. alive (character c))"
    then show "\<exists>j. j < length cs \<and> alive (character (cs ! j))
                  \<and> (\<forall>i<j. \<not> alive (character (cs ! i)))
                  \<and> take_action_on_round_end game_info = Inr (ChangeCharacterAction (CharPos j) [])
                  \<and> take_action_on_round_end game_info \<noteq> Inr DeclareEndAction"
      using some by blast
  next
    fix j
    assume "health_point (character (cs ! k)) \<le> 0"
      and "j < length cs \<and> alive (character (cs ! j)) \<and> (\<forall>i<j. \<not> alive (character (cs ! i)))"
    then show "take_action_on_round_end game_info = Inr (ChangeCharacterAction (CharPos j) [])"
      using first by blast
  next
    assume "\<not> health_point (character (cs ! k)) \<le> 0"
    then show "take_action_on_round_end game_info = Inr DeclareEndAction" by (rule healthy)
  next
    fix j
    assume hp: "health_point (character (cs ! k)) \<le> 0"
      and o: "j < length cs \<and> j \<noteq> k \<and> (\<forall>i<length cs. alive (character (cs ! i)) \<longleftrightarrow> i = j)"
    from only [OF hp] o
    show r: "take_action_on_round_end game_info = Inr (ChangeCharacterAction (CharPos j) [])"
      by blast
    from never [OF r] show "take_action_on_round_end game_info \<noteq> Inr DeclareEndAction" .
  qed
qed

theorem round_end_default_witness:
  "take_action_on_round_end one_survivor = Inr (ChangeCharacterAction (CharPos 2) [])
   \<and> take_action_on_round_end one_survivor \<noteq> Inr DeclareEndAction"
proof -
  let ?cs = "characters (get_player_info one_survivor)"
  have a: "?cs = characters (get_player_info one_survivor)" by simp
  have b: "active_character_position (get_player_info one_survivor) = CharPos 0"
    by (simp add: example_defs)
  have c: "0 < length ?cs" by (simp add: example_defs)
  have hp: "health_point (character (?cs ! 0)) \<le> 0" by (simp add: example_defs)
  have o: "2 < length ?cs \<and> (2::nat) \<noteq> 0
           \<and> (\<forall>i<length ?cs. alive (character (?cs ! i)) \<longleftrightarrow> i = 2)"
    by (simp add: example_defs All_less_Suc)
  from round_end_default [OF a b c] hp o show ?thesis by blast
qed

text \<open>
  Claim C8 as stated fails on two snapshots. When the defeated active slot still has its
  alive flag set and exactly one other slot is alive, the first alive slot is the active
  one: with the slots (health -3, alive) and (health 5, alive) and the first one active,
  the result is the switch to slot 0, not to slot 1. When the active character's health
  is at most 0 and no slot is alive, the call raises \<^verbatim>\<open>IndexError\<close> and returns no
  switch.
\<close>

theorem round_end_default_counterexample:
  "active_character_position (get_player_info flagged_defeated) = CharPos 0
   \<and> health_point (character (characters (get_player_info flagged_defeated) ! 0)) \<le> 0
   \<and> length (characters (get_player_info flagged_defeated)) = 2
   \<and> alive (character (characters (get_player_info flagged_defeated) ! 1))
   \<and> take_action_on_round_end flagged_defeated = Inr (ChangeCharacterAction (CharPos 0) [])
   \<and> take_action_on_round_end flagged_defeated \<noteq> Inr (ChangeCharacterAction (CharPos 1) [])
   \<and> health_point (character (characters (get_player_info no_survivor) ! 0)) \<le> 0
   \<and> take_action_on_round_end no_survivor = Inl IndexError"
  by (simp add: example_defs take_action_on_round_end_def py_index_def alive_positions_def)

text \<open>
  Claim C9, amended. The matcher's \<^verbatim>\<open>return []\<close> of a failure and a completed run that
  selected no die give the same result, the empty list; a cost specification with no
  key but \<^verbatim>\<open>POWER\<close> (the empty one among them) completes with no die selected. The
  attack policy never returns a card action or a skill action with an empty list of
  dice.
\<close>

theorem empty_selection_is_infeasible:
  "(greedy_select dice cost char_element = None \<longrightarrow> get_dice_idx_greedy dice cost char_element = [])
   \<and> ((\<forall>(key, val) \<in> set cost. key = POWER) \<longrightarrow>
        greedy_select dice cost char_element = Some []
      \<and> get_dice_idx_greedy dice cost char_element = [])
   \<and> (\<forall>i t d p. fst (take_action_on_play_cards get_character_card player_id game_info)
                   = Inr (UseCardAction i t d p) \<longrightarrow> d \<noteq> [])
   \<and> (\<forall>p n d t. fst (take_action_on_play_cards get_character_card player_id game_info)
                   = Inr (UseSkillAction p n d t) \<longrightarrow> d \<noteq> [])"
proof (intro conjI allI impI)
  assume "greedy_select dice cost char_element = None"
  then show "get_dice_idx_greedy dice cost char_element = []" by (simp add: get_dice_idx_greedy_def)
next
  assume p: "\<forall>(key, val) \<in> set cost. key = POWER"
  from greedy_select_only_power [OF p] show "greedy_select dice cost char_element = Some []" .
  from greedy_select_only_power [OF p] show "get_dice_idx_greedy dice cost char_element = []"
    by (simp add: get_dice_idx_greedy_def)
next
  fix i t d p
  assume "fst (take_action_on_play_cards get_character_card player_id game_info) = Inr (UseCardAction i t d p)"
  from take_action_on_play_cards_action [OF this] show "d \<noteq> []" by auto
next
  fix p n d t
  assume "fst (take_action_on_play_cards get_character_card player_id game_info) = Inr (UseSkillAction p n d t)"
  from take_action_on_play_cards_action [OF this] show "d \<noteq> []" by auto
qed

theorem empty_selection_is_infeasible_witness:
  "greedy_select [PYRO] [(CRYO, 1)] CRYO = None
   \<and> get_dice_idx_greedy [PYRO] [(CRYO, 1)] CRYO = []
   \<and> greedy_select [PYRO] [(POWER, 3)] CRYO = Some []
   \<and> get_dice_idx_greedy [PYRO] [(POWER, 3)] CRYO = []
   \<and> fst (take_action_on_play_cards (\<lambda>n. example_card) PLAYER1 burst_ready)
       = Inr (UseSkillAction (CharPos 0) ''Burst'' [0, 2, 3] [(PLAYER2, CharPos 0)])
   \<and> [0, 2, 3 :: nat] \<noteq> []"
proof -
  have n: "greedy_select [PYRO] [(CRYO, 1)] CRYO = None"
    by (simp add: greedy_select_def scan_more_def)
  have p: "\<forall>(key, val) \<in> set [(POWER, 3 :: int)]. key = POWER" by simp
  from empty_selection_is_infeasible [of "[PYRO]" "[(CRYO, 1)]" CRYO "\<lambda>n. example_card" PLAYER1 burst_ready]
    empty_selection_is_infeasible [of "[PYRO]" "[(POWER, 3)]" CRYO "\<lambda>n. example_card" PLAYER1 burst_ready]
    n p burst_ready_run
  show ?thesis by simp
qed

text \<open>
  Claim C9 as stated fails for a cost specification whose keys require zero dice: with
  \<^verbatim>\<open>{ANY: 0}\<close> and one Pyro die the matcher completes and returns one index, which is
  not the empty result of a failure.
\<close>

theorem zero_count_counterexample:
  "greedy_select [PYRO] [(ANY, 0)] CRYO = Some [0]
   \<and> get_dice_idx_greedy [PYRO] [(ANY, 0)] CRYO \<noteq> []"
  by (simp add: get_dice_idx_greedy_def greedy_select_def scan_more_def)

text \<open>
  Claim C10. The three defeated-character branches (the round-end default of the
  single-action agent, the one of the multi-action agent, and the play-cards branch of
  the attack policy) take the first element of the list of alive positions. For a
  snapshot whose active character has health at most 0: with no alive slot the access
  is out of range and each of the three raises \<^verbatim>\<open>IndexError\<close>; with at least one alive
  slot each of the three gives the switch to the first alive slot.
\<close>

theorem defeated_branch_needs_alive_slot:
  assumes "cs = characters (get_player_info game_info)"
    and "active_character_position (get_player_info game_info) = CharPos k"
    and "k < length cs"
    and "health_point (character (cs ! k)) \<le> 0"
  shows "((\<forall>c \<in> set cs. \<not> alive (character c)) \<longrightarrow>
            take_action_on_round_end game_info = Inl IndexError
          \<and> yield_actions_on_round_end game_info = Raise IndexError
          \<and> take_action_on_play_cards get_character_card player_id game_info = (Inl IndexError, []))
       \<and> ((\<exists>c \<in> set cs. alive (character c)) \<longrightarrow>
            (\<exists>j. j < length cs \<and> alive (character (cs ! j)) \<and> (\<forall>i<j. \<not> alive (character (cs ! i)))
               \<and> take_action_on_round_end game_info = Inr (ChangeCharacterAction (CharPos j) [])
               \<and> yield_actions_on_round_end game_info = Yield (ChangeCharacterAction (CharPos j) []) Done
               \<and> take_action_on_play_cards get_character_card player_id game_info
                   = (Inr (ChangeCharacterAction (CharPos j) []), [])))"
proof (intro conjI impI)
  assume "\<forall>c \<in> set cs. \<not> alive (character c)"
  with assms(1) have e: "alive_positions (get_player_info game_info) = []"
    by (simp add: alive_positions_empty)
  from e assms show "take_action_on_round_end game_info = Inl IndexError"
    by (simp add: take_action_on_round_end_def py_index_def)
  from e assms show "yield_actions_on_round_end game_info = Raise IndexError"
    by (simp add: yield_actions_on_round_end_def py_index_def)
  from e assms show "take_action_on_play_cards get_character_card player_id game_info = (Inl IndexError, [])"
    by (simp add: take_action_on_play_cards_def py_index_def Let_def)
next
  assume "\<exists>c \<in> set cs. alive (character c)"
  with assms(1) alive_positions_least [of "get_player_info game_info"]
  obtain j rest where j: "j < length cs" "alive (character (cs ! j))"
      "\<forall>i<j. \<not> alive (character (cs ! i))"
    and p: "alive_positions (get_player_info game_info) = CharPos j # rest" by auto
  from p assms have "take_action_on_round_end game_info = Inr (ChangeCharacterAction (CharPos j) [])"
    by (simp add: take_action_on_round_end_def py_index_def)
  moreover from p assms
  have "yield_actions_on_round_end game_info = Yield (ChangeCharacterAction (CharPos j) []) Done"
    by (simp add: yield_actions_on_round_end_def py_index_def)
  moreover from p assms
  have "take_action_on_play_cards get_character_card player_id game_info
          = (Inr (ChangeCharacterAction (CharPos j) []), [])"
    by (simp add: take_action_on_play_cards_def py_index_def Let_def)
  ultimately show "\<exists>j. j < length cs \<and> alive (character (cs ! j)) \<and> (\<forall>i<j. \<not> alive (character (cs ! i)))
               \<and> take_action_on_round_end game_info = Inr (ChangeCharacterAction (CharPos j) [])
               \<and> yield_actions_on_round_end game_info = Yield (ChangeCharacterAction (CharPos j) []) Done
               \<and> take_action_on_play_cards get_character_card player_id game_info
                   = (Inr (ChangeCharacterAction (CharPos j) []), [])"
    using j by blast
qed

theorem defeated_branch_needs_alive_slot_witness:
  "take_action_on_round_end no_survivor = Inl IndexError
   \<and> yield_actions_on_round_end no_survivor = Raise IndexError
   \<and> take_action_on_play_cards (\<lambda>n. example_card) PLAYER1 no_survivor = (Inl IndexError, [])"
  using defeated_branch_needs_alive_slot
    [of "characters (get_player_info no_survivor)" no_survivor 0 "\<lambda>n. example_card" PLAYER1]
  by (simp add: example_defs)

end
